theory Spec2Isabelle
  imports Main
begin

section \<open>The platform: clock, timer service and invocation log\<close>

text \<open>
  The hooks of \<^verbatim>\<open>src/index.ts\<close> run on two collaborators: the browser's timer
  service (\<^verbatim>\<open>setTimeout\<close>, \<^verbatim>\<open>clearTimeout\<close>) and React (refs, memoised
  callbacks, state cells, effects and their cleanups). Both are modelled by explicit
  state passing.

  Type \<open>'f\<close> is the type of function references (the \<^verbatim>\<open>func\<close> / \<^verbatim>\<open>setState\<close>
  a caller passes in), type \<open>'a\<close> the type of argument tuples. A wrapped function is
  opaque: calling it is recorded in the invocation log with the time of the call.
  Time is in whole milliseconds; the delay is taken non-negative.

  A pending timer holds the closure \<^verbatim>\<open>() => func(...args)\<close> as the pair of the
  captured \<^verbatim>\<open>func\<close> and \<^verbatim>\<open>args\<close>. The timer service keeps a list of timers,
  so nothing in the model itself bounds how many are pending.
\<close>

record ('f, 'a) timer =
  timer_id :: nat
  deadline :: nat
  cb_func :: 'f
  cb_args :: 'a

record ('f, 'a) platform =
  now :: nat
  next_id :: nat
  pending :: "('f, 'a) timer list"
  invoked :: "(nat \<times> 'f \<times> 'a) list"

definition boot :: "('f, 'a) platform" where
  "boot = \<lparr>now = 0, next_id = 1, pending = [], invoked = []\<rparr>"

text \<open>\<^verbatim>\<open>setTimeout(() => func(...args), delay)\<close>: a fresh id, due \<open>delay\<close> from now.\<close>

definition setTimeout :: "'f \<Rightarrow> 'a \<Rightarrow> nat \<Rightarrow> ('f, 'a) platform \<Rightarrow> nat \<times> ('f, 'a) platform" where
  "setTimeout f a d p =
     (next_id p,
      p\<lparr>next_id := Suc (next_id p),
        pending := pending p @
          [\<lparr>timer_id = next_id p, deadline = now p + d, cb_func = f, cb_args = a\<rparr>]\<rparr>)"

text \<open>\<^verbatim>\<open>clearTimeout(id)\<close>: \<^verbatim>\<open>undefined\<close> and ids that are no longer pending are
  ignored.\<close>

definition clearTimeout :: "nat option \<Rightarrow> ('f, 'a) platform \<Rightarrow> ('f, 'a) platform" where
  "clearTimeout r p =
     (case r of
        None \<Rightarrow> p
      | Some i \<Rightarrow> p\<lparr>pending := filter (\<lambda>t. timer_id t \<noteq> i) (pending p)\<rparr>)"

text \<open>Calling a wrapped function now.\<close>

definition invoke :: "'f \<Rightarrow> 'a \<Rightarrow> ('f, 'a) platform \<Rightarrow> ('f, 'a) platform" where
  "invoke f a p = p\<lparr>invoked := invoked p @ [(now p, f, a)]\<rparr>"

text \<open>A timer that fires runs its closure at its deadline.\<close>

definition fire :: "('f, 'a) timer \<Rightarrow> nat \<times> 'f \<times> 'a" where
  "fire t = (deadline t, cb_func t, cb_args t)"

text \<open>\<open>dt\<close> milliseconds pass: every timer that is due by then fires, earliest deadline
  first, and leaves the pending list.\<close>

definition advance :: "nat \<Rightarrow> ('f, 'a) platform \<Rightarrow> ('f, 'a) platform" where
  "advance dt p =
     (let t' = now p + dt;
          due = sort_key deadline (filter (\<lambda>t. deadline t \<le> t') (pending p))
      in p\<lparr>now := t',
           pending := filter (\<lambda>t. \<not> deadline t \<le> t') (pending p),
           invoked := invoked p @ map fire due\<rparr>)"

section \<open>React: memoised callbacks\<close>

text \<open>
  \<^verbatim>\<open>useCallback(fn, deps)\<close> keeps a memo cell with the dependencies and the closure
  of the render that last changed them, and returns the stored closure while the
  dependencies are the same. The debounced handle is the closure
  \<^verbatim>\<open>(...args) => { ... func ... delay ... }\<close>; it is represented by what it
  captures.
\<close>

record 'f handle =
  h_func :: 'f
  h_delay :: nat

definition useCallback :: "'c \<Rightarrow> 'd \<Rightarrow> ('d \<times> 'c) option \<Rightarrow> 'c \<times> ('d \<times> 'c) option" where
  "useCallback fn deps memo =
     (case memo of
        None \<Rightarrow> (fn, Some (deps, fn))
      | Some (deps', fn') \<Rightarrow>
          if deps' = deps then (fn', memo) else (fn, Some (deps, fn)))"

datatype ('f, 'a) event =
  Render 'f nat
| Call 'a
| Advance nat
| Unmount

section \<open>useUnsafeDebounce\<close>

record 'f unsafe_hooks =
  u_timeoutRef :: "nat option"
  u_memo :: "((nat \<times> 'f) \<times> 'f handle) option"

definition unsafe_hooks0 :: "'f unsafe_hooks" where
  "unsafe_hooks0 = \<lparr>u_timeoutRef = None, u_memo = None\<rparr>"

text \<open>One render of a component that calls \<^verbatim>\<open>useUnsafeDebounce(func, delay)\<close>
  (lines 16 to 23): the ref cell is kept, the handle is memoised on
  \<^verbatim>\<open>[delay, func]\<close>. The hook registers no effect and no cleanup.\<close>

definition useUnsafeDebounce :: "'f \<Rightarrow> nat \<Rightarrow> 'f unsafe_hooks \<Rightarrow> 'f handle \<times> 'f unsafe_hooks" where
  "useUnsafeDebounce func delay hs =
     (let (h, m) = useCallback \<lparr>h_func = func, h_delay = delay\<rparr> (delay, func) (u_memo hs)
      in (h, hs\<lparr>u_memo := m\<rparr>))"

text \<open>The body of the handle (lines 20 and 21).\<close>

definition unsafe_handle ::
  "'f handle \<Rightarrow> 'a \<Rightarrow> 'f unsafe_hooks \<times> ('f, 'a) platform \<Rightarrow> 'f unsafe_hooks \<times> ('f, 'a) platform" where
  "unsafe_handle h args w =
     (let (hs, p) = w;
          p1 = clearTimeout (u_timeoutRef hs) p;
          (i, p2) = setTimeout (h_func h) args (h_delay h) p1
      in (hs\<lparr>u_timeoutRef := Some i\<rparr>, p2))"

text \<open>A component instance that uses the hook: its hook cells, the handle its last
  render returned, whether it is still mounted, and the platform.\<close>

record ('f, 'a) unsafe_inst =
  u_hooks :: "'f unsafe_hooks"
  u_handle :: "'f handle"
  u_mounted :: bool
  u_platform :: "('f, 'a) platform"

definition unsafe_mount :: "'f \<Rightarrow> nat \<Rightarrow> ('f, 'a) unsafe_inst" where
  "unsafe_mount func delay =
     (let (h, hs) = useUnsafeDebounce func delay unsafe_hooks0
      in \<lparr>u_hooks = hs, u_handle = h, u_mounted = True, u_platform = boot\<rparr>)"

text \<open>
  What can happen to an instance: React renders it again with new arguments, somebody
  calls the handle of the last render, time passes, React destroys it. A destroyed
  instance is not rendered again; the handle and the timers outlive it, as closures and
  browser timers do. Destruction runs the registered cleanups, of which this hook has
  none.
\<close>

fun unsafe_step :: "('f, 'a) unsafe_inst \<Rightarrow> ('f, 'a) event \<Rightarrow> ('f, 'a) unsafe_inst" where
  "unsafe_step s (Render func delay) =
     (if u_mounted s
      then (let (h, hs) = useUnsafeDebounce func delay (u_hooks s)
            in s\<lparr>u_hooks := hs, u_handle := h\<rparr>)
      else s)"
| "unsafe_step s (Call args) =
     (let (hs, p) = unsafe_handle (u_handle s) args (u_hooks s, u_platform s)
      in s\<lparr>u_hooks := hs, u_platform := p\<rparr>)"
| "unsafe_step s (Advance dt) = s\<lparr>u_platform := advance dt (u_platform s)\<rparr>"
| "unsafe_step s Unmount = s\<lparr>u_mounted := False\<rparr>"

definition unsafe_run :: "('f, 'a) unsafe_inst \<Rightarrow> ('f, 'a) event list \<Rightarrow> ('f, 'a) unsafe_inst" where
  "unsafe_run = foldl unsafe_step"

section \<open>useDebounce\<close>

record ('f, 'a) safe_hooks =
  timeoutRef :: "nat option"
  argsRef :: "'a option"
  funcRef :: "'f option"
  memo :: "((nat \<times> 'f) \<times> 'f handle) option"

definition safe_hooks0 :: "('f, 'a) safe_hooks" where
  "safe_hooks0 = \<lparr>timeoutRef = None, argsRef = None, funcRef = None, memo = None\<rparr>"

text \<open>One render of a component that calls \<^verbatim>\<open>useDebounce(func, delay)\<close> (lines 38
  to 57): \<^verbatim>\<open>funcRef.current = func\<close> on every render, the handle memoised on
  \<^verbatim>\<open>[delay, func]\<close>. The effect has no dependencies: its body only returns the
  cleanup, which React keeps until the instance is destroyed.\<close>

definition useDebounce :: "'f \<Rightarrow> nat \<Rightarrow> ('f, 'a) safe_hooks \<Rightarrow> 'f handle \<times> ('f, 'a) safe_hooks" where
  "useDebounce func delay hs =
     (let hs1 = hs\<lparr>funcRef := Some func\<rparr>;
          (h, m) = useCallback \<lparr>h_func = func, h_delay = delay\<rparr> (delay, func) (memo hs1)
      in (h, hs1\<lparr>memo := m\<rparr>))"

text \<open>The cleanup of the effect (line 48):
  \<^verbatim>\<open>argsRef.current !== undefined && funcRef.current?.(...argsRef.current)\<close>.\<close>

definition cleanup :: "('f, 'a) safe_hooks \<Rightarrow> ('f, 'a) platform \<Rightarrow> ('f, 'a) platform" where
  "cleanup hs p =
     (case argsRef hs of
        None \<Rightarrow> p
      | Some args \<Rightarrow>
          (case funcRef hs of
             None \<Rightarrow> p
           | Some f \<Rightarrow> invoke f args p))"

text \<open>The body of the handle (lines 53 to 55).\<close>

definition safe_handle ::
  "'f handle \<Rightarrow> 'a \<Rightarrow> ('f, 'a) safe_hooks \<times> ('f, 'a) platform
     \<Rightarrow> ('f, 'a) safe_hooks \<times> ('f, 'a) platform" where
  "safe_handle h args w =
     (let (hs, p) = w;
          hs1 = hs\<lparr>argsRef := Some args\<rparr>;
          p1 = clearTimeout (timeoutRef hs1) p;
          (i, p2) = setTimeout (h_func h) args (h_delay h) p1
      in (hs1\<lparr>timeoutRef := Some i\<rparr>, p2))"

record ('f, 'a) safe_inst =
  hooks :: "('f, 'a) safe_hooks"
  handle :: "'f handle"
  mounted :: bool
  platform :: "('f, 'a) platform"

definition mount :: "'f \<Rightarrow> nat \<Rightarrow> ('f, 'a) safe_inst" where
  "mount func delay =
     (let (h, hs) = useDebounce func delay safe_hooks0
      in \<lparr>hooks = hs, handle = h, mounted = True, platform = boot\<rparr>)"

text \<open>The same events as for the unsafe hook. Destruction runs the cleanup, once.\<close>

fun step :: "('f, 'a) safe_inst \<Rightarrow> ('f, 'a) event \<Rightarrow> ('f, 'a) safe_inst" where
  "step s (Render func delay) =
     (if mounted s
      then (let (h, hs) = useDebounce func delay (hooks s)
            in s\<lparr>hooks := hs, handle := h\<rparr>)
      else s)"
| "step s (Call args) =
     (let (hs, p) = safe_handle (handle s) args (hooks s, platform s)
      in s\<lparr>hooks := hs, platform := p\<rparr>)"
| "step s (Advance dt) = s\<lparr>platform := advance dt (platform s)\<rparr>"
| "step s Unmount =
     (if mounted s
      then s\<lparr>mounted := False, platform := cleanup (hooks s) (platform s)\<rparr>
      else s)"

definition run :: "('f, 'a) safe_inst \<Rightarrow> ('f, 'a) event list \<Rightarrow> ('f, 'a) safe_inst" where
  "run = foldl step"

section \<open>useDebouncedState\<close>

text \<open>
  The hook cells of \<^verbatim>\<open>useDebouncedState(state, setState, delay)\<close> (lines 68 to
  89): the \<^verbatim>\<open>useState\<close> cell (empty before the first render, which fills it with
  \<^verbatim>\<open>state\<close>), the ref that every render overwrites with the value it read from
  the cell, the cells of the inner \<^verbatim>\<open>useDebounce(setState, delay)\<close>, the memo of
  \<^verbatim>\<open>handleSetState\<close>, and the dependency list \<^verbatim>\<open>[state]\<close> that React keeps
  for the effect. The argument tuple of the debounced setter is the one value.
  \<^verbatim>\<open>handleSetState\<close> captures \<^verbatim>\<open>debouncedSetState\<close> only and is represented by
  it. Where the source compares values with \<^verbatim>\<open>!==\<close> and React compares
  dependencies, the model uses equality of the value type.
\<close>

record ('s, 'f) ds_hooks =
  internalState :: "'s option"
  internalStateRef :: "'s option"
  debounce :: "('f, 's) safe_hooks"
  setter_memo :: "('f handle \<times> 'f handle) option"
  effect_deps :: "'s option"

definition ds_hooks0 :: "('s, 'f) ds_hooks" where
  "ds_hooks0 =
     \<lparr>internalState = None, internalStateRef = None, debounce = safe_hooks0,
      setter_memo = None, effect_deps = None\<rparr>"

text \<open>The body of the hook: one render pass. It returns the pair the component gets,
  the cells, and whether the effect on \<^verbatim>\<open>[state]\<close> is to run after this pass
  (on the first pass and whenever \<^verbatim>\<open>state\<close> is not what the pass before had).\<close>

definition useDebouncedState ::
  "'s \<Rightarrow> 'f \<Rightarrow> nat \<Rightarrow> ('s, 'f) ds_hooks \<Rightarrow> ('s \<times> 'f handle) \<times> ('s, 'f) ds_hooks \<times> bool" where
  "useDebouncedState state setState delay hs =
     (let cur = (case internalState hs of None \<Rightarrow> state | Some v \<Rightarrow> v);
          hs1 = hs\<lparr>internalState := Some cur, internalStateRef := Some cur\<rparr>;
          (debouncedSetState, dhs) = useDebounce setState delay (debounce hs1);
          (handleSetState, m) = useCallback debouncedSetState debouncedSetState (setter_memo hs1);
          run_effect = (effect_deps hs1 \<noteq> Some state)
      in ((cur, handleSetState),
          hs1\<lparr>debounce := dhs, setter_memo := m, effect_deps := Some state\<rparr>,
          run_effect))"

text \<open>The effect (lines 83 to 85); \<^verbatim>\<open>setInternalState\<close> writes the state cell.\<close>

definition state_effect :: "'s \<Rightarrow> ('s, 'f) ds_hooks \<Rightarrow> ('s, 'f) ds_hooks" where
  "state_effect state hs =
     (if Some state \<noteq> internalStateRef hs then hs\<lparr>internalState := Some state\<rparr> else hs)"

text \<open>The body of \<^verbatim>\<open>handleSetState\<close> (lines 77 and 78).\<close>

definition handleSetState ::
  "'f handle \<Rightarrow> 's \<Rightarrow> ('s, 'f) ds_hooks \<times> ('f, 's) platform
     \<Rightarrow> ('s, 'f) ds_hooks \<times> ('f, 's) platform" where
  "handleSetState h v w =
     (let (hs, p) = w;
          hs1 = hs\<lparr>internalState := Some v\<rparr>;
          (dhs, p1) = safe_handle h v (debounce hs1, p)
      in (hs1\<lparr>debounce := dhs\<rparr>, p1))"

text \<open>An instance of a component that uses the hook: the cells, the arguments of its
  last render (the parent's state, setter and delay), the pair that render returned,
  whether it is mounted, and the platform.\<close>

record ('s, 'f) ds_inst =
  d_hooks :: "('s, 'f) ds_hooks"
  d_state :: 's
  d_setState :: 'f
  d_delay :: nat
  d_value :: 's
  d_setValue :: "'f handle"
  d_mounted :: bool
  d_platform :: "('f, 's) platform"

definition render_pass :: "'s \<Rightarrow> 'f \<Rightarrow> nat \<Rightarrow> ('s, 'f) ds_inst \<Rightarrow> ('s, 'f) ds_inst \<times> bool" where
  "render_pass state setState delay s =
     (let ((v, h), hs, eff) = useDebouncedState state setState delay (d_hooks s)
      in (s\<lparr>d_hooks := hs, d_state := state, d_setState := setState, d_delay := delay,
            d_value := v, d_setValue := h\<rparr>, eff))"

text \<open>A render as React commits it: the pass, then the effect if its dependency
  changed, then one more pass with the same arguments if the effect stored a value
  other than the rendered one (that pass finds the dependency unchanged).\<close>

definition ds_render :: "'s \<Rightarrow> 'f \<Rightarrow> nat \<Rightarrow> ('s, 'f) ds_inst \<Rightarrow> ('s, 'f) ds_inst" where
  "ds_render state setState delay s =
     (let (s1, eff) = render_pass state setState delay s
      in if eff
         then (let s2 = s1\<lparr>d_hooks := state_effect state (d_hooks s1)\<rparr>
               in if internalState (d_hooks s2) \<noteq> Some (d_value s2)
                  then fst (render_pass state setState delay s2)
                  else s2)
         else s1)"

definition ds_mount :: "'s \<Rightarrow> 'f \<Rightarrow> nat \<Rightarrow> ('s, 'f) ds_inst" where
  "ds_mount state setState delay =
     ds_render state setState delay
       \<lparr>d_hooks = ds_hooks0, d_state = state, d_setState = setState, d_delay = delay,
        d_value = state, d_setValue = \<lparr>h_func = setState, h_delay = delay\<rparr>,
        d_mounted = True, d_platform = boot\<rparr>"

datatype ('s, 'f) ds_event =
  DRender 's 'f nat
| SetValue 's
| DAdvance nat
| DUnmount

text \<open>
  The parent renders the component with its current state, setter and delay; somebody
  calls the returned setter, after which React renders the mounted instance again with
  the arguments it had if the state cell changed; time passes (a timer that fires calls
  the parent's setter, which is logged; the parent's next render is its own event); the
  instance is destroyed, which runs the cleanup of the inner \<^verbatim>\<open>useDebounce\<close>.
\<close>

fun ds_step :: "('s, 'f) ds_inst \<Rightarrow> ('s, 'f) ds_event \<Rightarrow> ('s, 'f) ds_inst" where
  "ds_step s (DRender state setState delay) =
     (if d_mounted s then ds_render state setState delay s else s)"
| "ds_step s (SetValue v) =
     (let (hs, p) = handleSetState (d_setValue s) v (d_hooks s, d_platform s);
          s1 = s\<lparr>d_hooks := hs, d_platform := p\<rparr>
      in if d_mounted s1 \<and> v \<noteq> d_value s1
         then ds_render (d_state s1) (d_setState s1) (d_delay s1) s1
         else s1)"
| "ds_step s (DAdvance dt) = s\<lparr>d_platform := advance dt (d_platform s)\<rparr>"
| "ds_step s DUnmount =
     (if d_mounted s
      then s\<lparr>d_mounted := False, d_platform := cleanup (debounce (d_hooks s)) (d_platform s)\<rparr>
      else s)"

definition ds_run :: "('s, 'f) ds_inst \<Rightarrow> ('s, 'f) ds_event list \<Rightarrow> ('s, 'f) ds_inst" where
  "ds_run = foldl ds_step"

section \<open>Vocabulary for executions\<close>

text \<open>Milliseconds that pass during a list of events.\<close>

fun elapsed :: "('f, 'a) event list \<Rightarrow> nat" where
  "elapsed [] = 0"
| "elapsed (Advance dt # es) = dt + elapsed es"
| "elapsed (e # es) = elapsed es"

text \<open>The function and the delay of the last render, and the arguments of the last
  call of the handle.\<close>

fun latest_func :: "'f \<Rightarrow> ('f, 'a) event list \<Rightarrow> 'f" where
  "latest_func f [] = f"
| "latest_func f (Render g d # es) = latest_func g es"
| "latest_func f (e # es) = latest_func f es"

fun latest_delay :: "nat \<Rightarrow> ('f, 'a) event list \<Rightarrow> nat" where
  "latest_delay d [] = d"
| "latest_delay d (Render g d' # es) = latest_delay d' es"
| "latest_delay d (e # es) = latest_delay d es"

fun last_args :: "('f, 'a) event list \<Rightarrow> 'a option" where
  "last_args [] = None"
| "last_args (Call a # es) = (case last_args es of None \<Rightarrow> Some a | Some b \<Rightarrow> Some b)"
| "last_args (e # es) = last_args es"

text \<open>A stretch of an execution in which the handle is not called and the instance is
  not destroyed: renders and passing time only.\<close>

fun quiet :: "('f, 'a) event list \<Rightarrow> bool" where
  "quiet [] = True"
| "quiet (Render g d # es) = quiet es"
| "quiet (Advance dt # es) = quiet es"
| "quiet (e # es) = False"

text \<open>A burst of calls: each call comes \<open>g\<close> milliseconds after the event before it.\<close>

fun rapid :: "(nat \<times> 'a) list \<Rightarrow> ('f, 'a) event list" where
  "rapid [] = []"
| "rapid ((g, a) # cs) = Advance g # Call a # rapid cs"

text \<open>The same for the events of a \<^verbatim>\<open>useDebouncedState\<close> instance.\<close>

fun ds_elapsed :: "('s, 'f) ds_event list \<Rightarrow> nat" where
  "ds_elapsed [] = 0"
| "ds_elapsed (DAdvance dt # es) = dt + ds_elapsed es"
| "ds_elapsed (e # es) = ds_elapsed es"

fun ds_quiet :: "('s, 'f) ds_event list \<Rightarrow> bool" where
  "ds_quiet [] = True"
| "ds_quiet (DRender st f d # es) = ds_quiet es"
| "ds_quiet (DAdvance dt # es) = ds_quiet es"
| "ds_quiet (e # es) = False"

text \<open>The time from the first call of a burst to its last call: the sum of the gaps.\<close>

definition call_time :: "(nat \<times> 'a) list \<Rightarrow> nat" where
  "call_time cs = sum_list (map fst cs)"

section \<open>Invariants\<close>

text \<open>The timer service holds no timer of the instance, or exactly the one whose id is
  in \<^verbatim>\<open>timeoutRef\<close>; for \<^verbatim>\<open>useDebounce\<close> its closure holds the arguments in
  \<^verbatim>\<open>argsRef\<close>. The memo cell of \<^verbatim>\<open>useCallback\<close> holds the handle of the last
  render, and \<^verbatim>\<open>funcRef\<close> the function that render was given.\<close>

definition one_timer :: "('f, 'a) safe_hooks \<Rightarrow> ('f, 'a) platform \<Rightarrow> bool" where
  "one_timer hs p \<longleftrightarrow>
     pending p = [] \<or>
     (\<exists>t. pending p = [t] \<and> timeoutRef hs = Some (timer_id t) \<and> argsRef hs = Some (cb_args t)
        \<and> now p \<le> deadline t)"

definition safe_inv :: "('f, 'a) safe_inst \<Rightarrow> bool" where
  "safe_inv s \<longleftrightarrow>
     memo (hooks s) = Some ((h_delay (handle s), h_func (handle s)), handle s) \<and>
     funcRef (hooks s) = Some (h_func (handle s)) \<and>
     one_timer (hooks s) (platform s)"

definition unsafe_one_timer :: "'f unsafe_hooks \<Rightarrow> ('f, 'a) platform \<Rightarrow> bool" where
  "unsafe_one_timer hs p \<longleftrightarrow>
     pending p = [] \<or> (\<exists>t. pending p = [t] \<and> u_timeoutRef hs = Some (timer_id t))"

definition unsafe_inv :: "('f, 'a) unsafe_inst \<Rightarrow> bool" where
  "unsafe_inv s \<longleftrightarrow>
     u_memo (u_hooks s) = Some ((h_delay (u_handle s), h_func (u_handle s)), u_handle s) \<and>
     unsafe_one_timer (u_hooks s) (u_platform s)"

text \<open>The timer was armed just now by a call of the handle for \<open>f\<close> and \<open>d\<close> with
  arguments \<open>a\<close>.\<close>

definition armed :: "'f \<Rightarrow> nat \<Rightarrow> 'a \<Rightarrow> ('f, 'a) safe_inst \<Rightarrow> bool" where
  "armed f d a s \<longleftrightarrow>
     safe_inv s \<and> handle s = \<lparr>h_func = f, h_delay = d\<rparr> \<and>
     (\<exists>i. pending (platform s) =
        [\<lparr>timer_id = i, deadline = now (platform s) + d, cb_func = f, cb_args = a\<rparr>])"

definition unsafe_armed :: "'f \<Rightarrow> nat \<Rightarrow> 'a \<Rightarrow> ('f, 'a) unsafe_inst \<Rightarrow> bool" where
  "unsafe_armed f d a s \<longleftrightarrow>
     unsafe_inv s \<and> u_handle s = \<lparr>h_func = f, h_delay = d\<rparr> \<and>
     (\<exists>i. pending (u_platform s) =
        [\<lparr>timer_id = i, deadline = now (u_platform s) + d, cb_func = f, cb_args = a\<rparr>])"

text \<open>A mounted \<^verbatim>\<open>useDebouncedState\<close> instance between two events: the state cell
  and the ref hold the value the last render returned, and the effect's dependency is
  the state the parent passed to that render.\<close>

definition ds_inv :: "('s, 'f) ds_inst \<Rightarrow> bool" where
  "ds_inv s \<longleftrightarrow>
     d_mounted s \<and>
     internalState (d_hooks s) = Some (d_value s) \<and>
     internalStateRef (d_hooks s) = Some (d_value s) \<and>
     effect_deps (d_hooks s) = Some (d_state s) \<and>
     d_setValue s = \<lparr>h_func = d_setState s, h_delay = d_delay s\<rparr> \<and>
     setter_memo (d_hooks s) = Some (d_setValue s, d_setValue s) \<and>
     memo (debounce (d_hooks s)) = Some ((d_delay s, d_setState s), d_setValue s) \<and>
     funcRef (debounce (d_hooks s)) = Some (d_setState s) \<and>
     one_timer (debounce (d_hooks s)) (d_platform s)"

section \<open>Steps of a useDebounce instance\<close>

lemma useDebounce_eq:
  "memo hs = Some ((h_delay h, h_func h), h) \<Longrightarrow>
   useDebounce f d hs =
     (\<lparr>h_func = f, h_delay = d\<rparr>,
      hs\<lparr>funcRef := Some f, memo := Some ((d, f), \<lparr>h_func = f, h_delay = d\<rparr>)\<rparr>)"
  by (cases h) (auto simp: useDebounce_def useCallback_def Let_def)

lemma mount_eq:
  "mount f d =
     \<lparr>hooks = \<lparr>timeoutRef = None, argsRef = None, funcRef = Some f,
                memo = Some ((d, f), \<lparr>h_func = f, h_delay = d\<rparr>)\<rparr>,
      handle = \<lparr>h_func = f, h_delay = d\<rparr>, mounted = True, platform = boot\<rparr>"
  by (simp add: mount_def useDebounce_def useCallback_def safe_hooks0_def)

lemma step_Render_eq:
  "safe_inv s \<Longrightarrow> mounted s \<Longrightarrow>
   step s (Render f d) =
     s\<lparr>hooks := (hooks s)\<lparr>funcRef := Some f, memo := Some ((d, f), \<lparr>h_func = f, h_delay = d\<rparr>)\<rparr>,
       handle := \<lparr>h_func = f, h_delay = d\<rparr>\<rparr>"
  by (simp add: safe_inv_def useDebounce_eq)

lemma step_Call_eq:
  "one_timer (hooks s) (platform s) \<Longrightarrow>
   step s (Call a) =
     s\<lparr>hooks := (hooks s)\<lparr>argsRef := Some a, timeoutRef := Some (next_id (platform s))\<rparr>,
       platform := (platform s)\<lparr>next_id := Suc (next_id (platform s)),
         pending := [\<lparr>timer_id = next_id (platform s),
                      deadline = now (platform s) + h_delay (handle s),
                      cb_func = h_func (handle s), cb_args = a\<rparr>]\<rparr>\<rparr>"
  by (auto simp: one_timer_def safe_handle_def clearTimeout_def setTimeout_def Let_def split: option.splits)

lemma advance_fields:
  "now (advance dt p) = now p + dt"
  "next_id (advance dt p) = next_id p"
  "pending (advance dt p) = filter (\<lambda>t. \<not> deadline t \<le> now p + dt) (pending p)"
  "invoked (advance dt p) =
     invoked p @ map fire (sort_key deadline (filter (\<lambda>t. deadline t \<le> now p + dt) (pending p)))"
  by (simp_all add: advance_def Let_def)

lemma one_timer_advance: "one_timer hs p \<Longrightarrow> one_timer hs (advance dt p)"
  unfolding one_timer_def
proof (elim disjE exE conjE)
  assume "pending p = []"
  then show "pending (advance dt p) = [] \<or>
    (\<exists>t. pending (advance dt p) = [t] \<and> timeoutRef hs = Some (timer_id t) \<and>
       argsRef hs = Some (cb_args t) \<and> now (advance dt p) \<le> deadline t)"
    by (simp add: advance_fields)
next
  fix t
  assume "pending p = [t]" "timeoutRef hs = Some (timer_id t)" "argsRef hs = Some (cb_args t)"
  then show "pending (advance dt p) = [] \<or>
    (\<exists>t. pending (advance dt p) = [t] \<and> timeoutRef hs = Some (timer_id t) \<and>
       argsRef hs = Some (cb_args t) \<and> now (advance dt p) \<le> deadline t)"
    by (cases "deadline t \<le> now p + dt") (simp_all add: advance_fields)
qed

lemma safe_inv_mount: "safe_inv (mount f d)"
  by (simp add: mount_eq safe_inv_def one_timer_def boot_def)

lemma safe_inv_step: "safe_inv s \<Longrightarrow> safe_inv (step s e)"
proof (cases e)
  case (Render f d)
  assume "safe_inv s"
  then show ?thesis using Render
  proof (cases "mounted s")
    case True
    with \<open>safe_inv s\<close> have "step s e = s\<lparr>hooks := (hooks s)\<lparr>funcRef := Some f, memo := Some ((d, f), \<lparr>h_func = f, h_delay = d\<rparr>)\<rparr>,
       handle := \<lparr>h_func = f, h_delay = d\<rparr>\<rparr>"
      unfolding Render by (rule step_Render_eq)
    with \<open>safe_inv s\<close> show ?thesis by (simp add: safe_inv_def one_timer_def)
  next
    case False
    with \<open>safe_inv s\<close> show ?thesis by (simp add: Render)
  qed
next
  case (Call a)
  assume "safe_inv s"
  then show ?thesis using Call
    by (simp add: step_Call_eq safe_inv_def del: step.simps) (simp add: one_timer_def)
next
  case (Advance dt)
  assume "safe_inv s"
  then show ?thesis using Advance
    by (simp add: safe_inv_def one_timer_advance)
next
  case Unmount
  assume "safe_inv s"
  then show ?thesis using Unmount
    by (auto simp: safe_inv_def one_timer_def cleanup_def invoke_def split: option.splits)
qed

lemma safe_inv_run: "safe_inv s \<Longrightarrow> safe_inv (run s tr)"
  unfolding run_def by (induction tr arbitrary: s) (auto simp: safe_inv_step)

section \<open>Executions of a useDebounce instance\<close>

lemma run_Nil: "run s [] = s"
  by (simp add: run_def)

lemma run_Cons: "run s (e # es) = run (step s e) es"
  by (simp add: run_def)

lemma run_snoc: "run s (xs @ [e]) = step (run s xs) e"
  by (simp add: run_def)

lemma useDebounce_keeps:
  "timeoutRef (snd (useDebounce f d hs)) = timeoutRef hs"
  "argsRef (snd (useDebounce f d hs)) = argsRef hs"
  by (simp_all add: useDebounce_def Let_def split: prod.splits)

lemma step_Render_keeps:
  "platform (step s (Render f d)) = platform s"
  "mounted (step s (Render f d)) = mounted s"
  "argsRef (hooks (step s (Render f d))) = argsRef (hooks s)"
  "timeoutRef (hooks (step s (Render f d))) = timeoutRef (hooks s)"
  by (simp_all add: useDebounce_keeps case_prod_beta)

lemma safe_handle_fields:
  "argsRef (fst (safe_handle h a (hs, p))) = Some a"
  "funcRef (fst (safe_handle h a (hs, p))) = funcRef hs"
  "memo (fst (safe_handle h a (hs, p))) = memo hs"
  "now (snd (safe_handle h a (hs, p))) = now p"
  "invoked (snd (safe_handle h a (hs, p))) = invoked p"
  by (simp_all add: safe_handle_def setTimeout_def clearTimeout_def Let_def split: option.splits)

lemma step_Call_keeps:
  "now (platform (step s (Call a))) = now (platform s)"
  "invoked (platform (step s (Call a))) = invoked (platform s)"
  "mounted (step s (Call a)) = mounted s"
  "handle (step s (Call a)) = handle s"
  "argsRef (hooks (step s (Call a))) = Some a"
  by (simp_all add: safe_handle_fields case_prod_beta)

lemma cleanup_fields:
  "now (cleanup hs p) = now p"
  "pending (cleanup hs p) = pending p"
  "next_id (cleanup hs p) = next_id p"
  by (simp_all add: cleanup_def invoke_def split: option.splits)

lemma now_step: "now (platform (step s e)) = now (platform s) + elapsed [e]"
  by (cases e) (simp_all add: step_Render_keeps step_Call_keeps advance_fields cleanup_fields
      del: step.simps(1,2))

lemma elapsed_append: "elapsed (xs @ ys) = elapsed xs + elapsed ys"
  by (induction xs rule: elapsed.induct) simp_all

lemma now_run: "now (platform (run s tr)) = now (platform s) + elapsed tr"
proof (induction tr arbitrary: s)
  case Nil
  show ?case by (simp add: run_Nil)
next
  case (Cons e es)
  have "elapsed (e # es) = elapsed [e] + elapsed es"
    using elapsed_append [of "[e]" es] by simp
  with Cons show ?case by (simp add: run_Cons now_step del: elapsed.simps)
qed

lemma mounted_run: "Unmount \<notin> set tr \<Longrightarrow> mounted s \<Longrightarrow> mounted (run s tr)"
proof (induction tr arbitrary: s)
  case Nil
  then show ?case by (simp add: run_Nil)
next
  case (Cons e es)
  from Cons.prems have "mounted (step s e)"
    by (cases e) (simp_all add: step_Render_keeps step_Call_keeps del: step.simps(1,2))
  with Cons show ?case by (simp add: run_Cons)
qed

lemma latest_func_snoc:
  "latest_func f (tr @ [e]) = (case e of Render g d \<Rightarrow> g | _ \<Rightarrow> latest_func f tr)"
  by (induction f tr rule: latest_func.induct) (simp_all split: event.splits)

lemma latest_delay_snoc:
  "latest_delay d (tr @ [e]) = (case e of Render g d' \<Rightarrow> d' | _ \<Rightarrow> latest_delay d tr)"
  by (induction d tr rule: latest_delay.induct) (simp_all split: event.splits)

lemma last_args_snoc:
  "last_args (tr @ [e]) = (case e of Call a \<Rightarrow> Some a | _ \<Rightarrow> last_args tr)"
  by (induction tr rule: last_args.induct) (simp_all split: event.splits option.splits)

lemma handle_run:
  "Unmount \<notin> set tr \<Longrightarrow>
   handle (run (mount f d) tr) = \<lparr>h_func = latest_func f tr, h_delay = latest_delay d tr\<rparr>"
proof (induction tr rule: rev_induct)
  case Nil
  show ?case by (simp add: run_Nil mount_eq)
next
  case (snoc e tr)
  let ?s = "run (mount f d) tr"
  have inv: "safe_inv ?s" by (simp add: safe_inv_run safe_inv_mount)
  from snoc.prems have m: "mounted ?s" by (simp add: mounted_run mount_eq)
  from snoc show ?case
    by (cases e)
      (simp_all add: run_snoc latest_func_snoc latest_delay_snoc step_Render_eq [OF inv m]
        step_Call_keeps del: step.simps(1,2))
qed

lemma argsRef_run: "argsRef (hooks (run (mount f d) tr)) = last_args tr"
proof (induction tr rule: rev_induct)
  case Nil
  show ?case by (simp add: run_Nil mount_eq)
next
  case (snoc e tr)
  then show ?case
    by (cases e)
      (simp_all add: run_snoc last_args_snoc step_Render_keeps step_Call_keeps del: step.simps(1,2))
qed

text \<open>While nothing but renders and time below the deadline happens, a pending timer
  stays and nothing is invoked.\<close>

lemma quiet_run:
  assumes "safe_inv s" "mounted s" "quiet mid"
    and "pending (platform s) = [t]" "now (platform s) + elapsed mid < deadline t"
  shows "pending (platform (run s mid)) = [t] \<and>
         invoked (platform (run s mid)) = invoked (platform s) \<and>
         argsRef (hooks (run s mid)) = argsRef (hooks s) \<and>
         h_func (handle (run s mid)) = latest_func (h_func (handle s)) mid \<and>
         mounted (run s mid) \<and> safe_inv (run s mid)"
  using assms
proof (induction mid arbitrary: s)
  case Nil
  then show ?case by (simp add: run_Nil)
next
  case (Cons e es)
  show ?case
  proof (cases e)
    case (Render g d)
    have eq: "step s (Render g d) = s\<lparr>hooks := (hooks s)\<lparr>funcRef := Some g,
        memo := Some ((d, g), \<lparr>h_func = g, h_delay = d\<rparr>)\<rparr>, handle := \<lparr>h_func = g, h_delay = d\<rparr>\<rparr>"
      using Cons.prems(1,2) by (rule step_Render_eq)
    have h: "h_func (handle (step s (Render g d))) = g"
      by (simp add: eq del: step.simps)
    have "safe_inv (step s (Render g d))" using Cons.prems(1) by (rule safe_inv_step)
    moreover have "mounted (step s (Render g d))" "quiet es"
      "pending (platform (step s (Render g d))) = [t]"
      "now (platform (step s (Render g d))) + elapsed es < deadline t"
      using Cons.prems by (simp_all add: Render step_Render_keeps del: step.simps)
    ultimately have "pending (platform (run (step s (Render g d)) es)) = [t] \<and>
         invoked (platform (run (step s (Render g d)) es)) = invoked (platform (step s (Render g d))) \<and>
         argsRef (hooks (run (step s (Render g d)) es)) = argsRef (hooks (step s (Render g d))) \<and>
         h_func (handle (run (step s (Render g d)) es)) =
           latest_func (h_func (handle (step s (Render g d)))) es \<and>
         mounted (run (step s (Render g d)) es) \<and> safe_inv (run (step s (Render g d)) es)"
      by (rule Cons.IH)
    then show ?thesis
      by (simp add: run_Cons Render step_Render_keeps h del: step.simps)
  next
    case (Advance dt)
    have "safe_inv (step s e)" using Cons.prems(1) by (rule safe_inv_step)
    moreover have "mounted (step s e)" "quiet es" "pending (platform (step s e)) = [t]"
      "now (platform (step s e)) + elapsed es < deadline t"
      using Cons.prems by (simp_all add: Advance advance_fields)
    ultimately have "pending (platform (run (step s e) es)) = [t] \<and>
         invoked (platform (run (step s e) es)) = invoked (platform (step s e)) \<and>
         argsRef (hooks (run (step s e) es)) = argsRef (hooks (step s e)) \<and>
         h_func (handle (run (step s e) es)) = latest_func (h_func (handle (step s e))) es \<and>
         mounted (run (step s e) es) \<and> safe_inv (run (step s e) es)"
      by (rule Cons.IH)
    then show ?thesis using Cons.prems by (simp add: run_Cons Advance advance_fields)
  next
    case (Call a)
    with Cons.prems show ?thesis by simp
  next
    case Unmount
    with Cons.prems show ?thesis by simp
  qed
qed

lemma step_Unmount_invoked:
  "safe_inv s \<Longrightarrow> mounted s \<Longrightarrow> argsRef (hooks s) = Some a \<Longrightarrow>
   invoked (platform (step s Unmount)) =
     invoked (platform s) @ [(now (platform s), h_func (handle s), a)]"
  by (simp add: safe_inv_def cleanup_def invoke_def)

lemma step_Unmount_silent:
  "argsRef (hooks s) = None \<Longrightarrow> invoked (platform (step s Unmount)) = invoked (platform s)"
  by (simp add: cleanup_def)

lemma mount_fields:
  "mounted (mount f d)" "now (platform (mount f d)) = 0" "pending (platform (mount f d)) = []"
  "invoked (platform (mount f d)) = []" "argsRef (hooks (mount f d)) = None"
  by (simp_all add: mount_eq boot_def)

lemma reach_facts:
  assumes "Unmount \<notin> set tr"
  shows "safe_inv (run (mount f d) tr)" "mounted (run (mount f d) tr)"
    "handle (run (mount f d) tr) = \<lparr>h_func = latest_func f tr, h_delay = latest_delay d tr\<rparr>"
    "now (platform (run (mount f d) tr)) = elapsed tr"
  using assms
  by (simp_all add: safe_inv_run safe_inv_mount mounted_run handle_run now_run mount_fields)

lemma after_Call:
  assumes "safe_inv s"
  shows "pending (platform (step s (Call a))) =
           [\<lparr>timer_id = next_id (platform s), deadline = now (platform s) + h_delay (handle s),
             cb_func = h_func (handle s), cb_args = a\<rparr>]"
  using assms by (simp add: safe_inv_def step_Call_eq del: step.simps)

lemma fire_after_quiet:
  assumes "Unmount \<notin> set tr" "quiet mid" "elapsed mid < latest_delay d tr"
    "latest_delay d tr \<le> elapsed mid + dt"
  shows "invoked (platform (run (mount f d) (tr @ Call a # mid @ [Advance dt]))) =
         invoked (platform (run (mount f d) tr)) @
           [(elapsed tr + latest_delay d tr, latest_func f tr, a)]"
proof -
  let ?s0 = "run (mount f d) tr"
  let ?s1 = "step ?s0 (Call a)"
  let ?s2 = "run ?s1 mid"
  let ?t = "\<lparr>timer_id = next_id (platform ?s0), deadline = now (platform ?s0) + h_delay (handle ?s0),
             cb_func = h_func (handle ?s0), cb_args = a\<rparr>"
  note r = reach_facts [OF assms(1), of f d]
  have i1: "safe_inv ?s1" using r(1) by (rule safe_inv_step)
  have m1: "mounted ?s1" using r(2) by (simp add: step_Call_keeps del: step.simps)
  have p1: "pending (platform ?s1) = [?t]" using r(1) by (rule after_Call)
  have d1: "now (platform ?s1) + elapsed mid < deadline ?t"
    using assms(3) by (simp add: step_Call_keeps r del: step.simps)
  have q: "pending (platform ?s2) = [?t] \<and>
         invoked (platform ?s2) = invoked (platform ?s1) \<and>
         argsRef (hooks ?s2) = argsRef (hooks ?s1) \<and>
         h_func (handle ?s2) = latest_func (h_func (handle ?s1)) mid \<and>
         mounted ?s2 \<and> safe_inv ?s2"
    using i1 m1 assms(2) p1 d1 by (rule quiet_run)
  have n2: "now (platform ?s2) = elapsed tr + elapsed mid"
    by (simp add: now_run step_Call_keeps mount_fields del: step.simps)
  have "invoked (platform (step ?s2 (Advance dt))) = invoked (platform ?s2) @ [fire ?t]"
    using q n2 assms(4) by (simp add: advance_fields r)
  moreover have "invoked (platform ?s2) = invoked (platform ?s0)"
    using q by (simp add: step_Call_keeps del: step.simps)
  moreover have "run (mount f d) (tr @ Call a # mid @ [Advance dt]) = step ?s2 (Advance dt)"
    by (simp add: run_def)
  ultimately show ?thesis by (simp add: fire_def r)
qed

lemma flush_general:
  assumes "Unmount \<notin> set tr"
  shows "invoked (platform (run (mount f d) (tr @ [Unmount]))) =
         invoked (platform (run (mount f d) tr)) @
           (case last_args tr of None \<Rightarrow> [] | Some a \<Rightarrow> [(elapsed tr, latest_func f tr, a)])"
proof (cases "last_args tr")
  case None
  then have "argsRef (hooks (run (mount f d) tr)) = None" by (simp add: argsRef_run)
  then show ?thesis using None by (simp add: run_snoc step_Unmount_silent del: step.simps)
next
  case (Some a)
  note r = reach_facts [OF assms, of f d]
  from Some have "argsRef (hooks (run (mount f d) tr)) = Some a" by (simp add: argsRef_run)
  with r(1,2) have "invoked (platform (step (run (mount f d) tr) Unmount)) =
     invoked (platform (run (mount f d) tr)) @
       [(now (platform (run (mount f d) tr)), h_func (handle (run (mount f d) tr)), a)]"
    by (rule step_Unmount_invoked)
  then show ?thesis using Some by (simp add: run_snoc r del: step.simps)
qed

lemma silent_run:
  assumes "\<forall>a. Call a \<notin> set tr"
    and "pending (platform s) = []" "argsRef (hooks s) = None"
  shows "pending (platform (run s tr)) = [] \<and> argsRef (hooks (run s tr)) = None \<and>
         invoked (platform (run s tr)) = invoked (platform s)"
  using assms
proof (induction tr arbitrary: s)
  case Nil
  then show ?case by (simp add: run_Nil)
next
  case (Cons e es)
  from Cons.prems(1) have "\<forall>a. e \<noteq> Call a" by auto
  then have "pending (platform (step s e)) = [] \<and> argsRef (hooks (step s e)) = None \<and>
        invoked (platform (step s e)) = invoked (platform s)"
    using Cons.prems(2,3)
    by (cases e)
       (simp_all add: step_Render_keeps advance_fields cleanup_def del: step.simps(1,2))
  moreover from Cons.prems have "\<forall>a. Call a \<notin> set es" by simp
  ultimately show ?case using Cons.IH [of "step s e"] by (simp add: run_Cons)
qed

section \<open>Bursts of calls\<close>

lemma armed_Call:
  assumes "safe_inv s" "handle s = \<lparr>h_func = f, h_delay = d\<rparr>"
  shows "armed f d a (step s (Call a))"
proof -
  have "safe_inv (step s (Call a))" using assms(1) by (rule safe_inv_step)
  moreover have "pending (platform (step s (Call a))) =
     [\<lparr>timer_id = next_id (platform s), deadline = now (platform s) + d, cb_func = f, cb_args = a\<rparr>]"
    using after_Call [OF assms(1), of a] assms(2) by simp
  ultimately show ?thesis
    using assms(2) by (simp add: armed_def step_Call_keeps del: step.simps)
qed

lemma armed_gap:
  assumes "armed f d a0 s" "g < d"
  shows "safe_inv (step s (Advance g))" "handle (step s (Advance g)) = \<lparr>h_func = f, h_delay = d\<rparr>"
    "invoked (platform (step s (Advance g))) = invoked (platform s)"
  using assms by (auto simp: armed_def safe_inv_step advance_fields simp del: step.simps)
    (auto simp: advance_fields)

lemma rapid_armed:
  assumes "armed f d a0 s" "\<forall>(g, a) \<in> set cs. g < d"
  shows "armed f d (snd (last ((g0, a0) # cs))) (run s (rapid cs)) \<and>
         invoked (platform (run s (rapid cs))) = invoked (platform s)"
  using assms
proof (induction cs arbitrary: s a0 g0)
  case Nil
  then show ?case by (simp add: run_Nil)
next
  case (Cons c cs)
  obtain g a where c: "c = (g, a)" by (cases c)
  from Cons.prems c have g: "g < d" by simp
  let ?s1 = "step s (Advance g)"
  let ?s2 = "step ?s1 (Call a)"
  note gap = armed_gap [OF Cons.prems(1) g]
  have "armed f d a ?s2" using gap(1,2) by (rule armed_Call)
  moreover from Cons.prems have "\<forall>(g, a) \<in> set cs. g < d" by simp
  ultimately have "armed f d (snd (last ((g, a) # cs))) (run ?s2 (rapid cs)) \<and>
         invoked (platform (run ?s2 (rapid cs))) = invoked (platform ?s2)"
    by (rule Cons.IH)
  moreover have "invoked (platform ?s2) = invoked (platform s)"
    using gap(3) by (simp add: step_Call_keeps del: step.simps)
  ultimately show ?case by (simp add: c run_Cons del: step.simps)
qed

lemma armed_fire:
  assumes "armed f d a s"
  shows "invoked (platform (step s (Advance dt))) =
     invoked (platform s) @ (if d \<le> dt then [(now (platform s) + d, f, a)] else [])"
  using assms by (auto simp: armed_def advance_fields fire_def)

section \<open>Invariants and bursts of calls of a useUnsafeDebounce instance\<close>

lemma unsafe_run_Nil: "unsafe_run s [] = s"
  by (simp add: unsafe_run_def)

lemma unsafe_run_Cons: "unsafe_run s (e # es) = unsafe_run (unsafe_step s e) es"
  by (simp add: unsafe_run_def)

lemma useUnsafeDebounce_eq:
  "u_memo hs = Some ((h_delay h, h_func h), h) \<Longrightarrow>
   useUnsafeDebounce f d hs =
     (\<lparr>h_func = f, h_delay = d\<rparr>, hs\<lparr>u_memo := Some ((d, f), \<lparr>h_func = f, h_delay = d\<rparr>)\<rparr>)"
  by (cases h) (auto simp: useUnsafeDebounce_def useCallback_def Let_def)

lemma unsafe_mount_eq:
  "unsafe_mount f d =
     \<lparr>u_hooks = \<lparr>u_timeoutRef = None, u_memo = Some ((d, f), \<lparr>h_func = f, h_delay = d\<rparr>)\<rparr>,
      u_handle = \<lparr>h_func = f, h_delay = d\<rparr>, u_mounted = True, u_platform = boot\<rparr>"
  by (simp add: unsafe_mount_def useUnsafeDebounce_def useCallback_def unsafe_hooks0_def)

lemma unsafe_step_Render_eq:
  "unsafe_inv s \<Longrightarrow> u_mounted s \<Longrightarrow>
   unsafe_step s (Render f d) =
     s\<lparr>u_hooks := (u_hooks s)\<lparr>u_memo := Some ((d, f), \<lparr>h_func = f, h_delay = d\<rparr>)\<rparr>,
       u_handle := \<lparr>h_func = f, h_delay = d\<rparr>\<rparr>"
  by (simp add: unsafe_inv_def useUnsafeDebounce_eq)

lemma unsafe_step_Call_eq:
  "unsafe_one_timer (u_hooks s) (u_platform s) \<Longrightarrow>
   unsafe_step s (Call a) =
     s\<lparr>u_hooks := (u_hooks s)\<lparr>u_timeoutRef := Some (next_id (u_platform s))\<rparr>,
       u_platform := (u_platform s)\<lparr>next_id := Suc (next_id (u_platform s)),
         pending := [\<lparr>timer_id = next_id (u_platform s),
                      deadline = now (u_platform s) + h_delay (u_handle s),
                      cb_func = h_func (u_handle s), cb_args = a\<rparr>]\<rparr>\<rparr>"
  by (auto simp: unsafe_one_timer_def unsafe_handle_def clearTimeout_def setTimeout_def Let_def
      split: option.splits)

lemma unsafe_one_timer_advance:
  "unsafe_one_timer hs p \<Longrightarrow> unsafe_one_timer hs (advance dt p)"
  unfolding unsafe_one_timer_def
proof (elim disjE exE conjE)
  assume "pending p = []"
  then show "pending (advance dt p) = [] \<or>
    (\<exists>t. pending (advance dt p) = [t] \<and> u_timeoutRef hs = Some (timer_id t))"
    by (simp add: advance_fields)
next
  fix t
  assume "pending p = [t]" "u_timeoutRef hs = Some (timer_id t)"
  then show "pending (advance dt p) = [] \<or>
    (\<exists>t. pending (advance dt p) = [t] \<and> u_timeoutRef hs = Some (timer_id t))"
    by (cases "deadline t \<le> now p + dt") (simp_all add: advance_fields)
qed

lemma unsafe_inv_mount: "unsafe_inv (unsafe_mount f d)"
  by (simp add: unsafe_mount_eq unsafe_inv_def unsafe_one_timer_def boot_def)

lemma unsafe_inv_step: "unsafe_inv s \<Longrightarrow> unsafe_inv (unsafe_step s e)"
proof (cases e)
  case (Render f d)
  assume i: "unsafe_inv s"
  show ?thesis
  proof (cases "u_mounted s")
    case True
    with i have "unsafe_step s (Render f d) =
       s\<lparr>u_hooks := (u_hooks s)\<lparr>u_memo := Some ((d, f), \<lparr>h_func = f, h_delay = d\<rparr>)\<rparr>,
         u_handle := \<lparr>h_func = f, h_delay = d\<rparr>\<rparr>"
      by (rule unsafe_step_Render_eq)
    with i show ?thesis by (simp add: Render unsafe_inv_def unsafe_one_timer_def del: unsafe_step.simps)
  next
    case False
    with i show ?thesis by (simp add: Render)
  qed
next
  case (Call a)
  assume "unsafe_inv s"
  then show ?thesis using Call
    by (simp add: unsafe_step_Call_eq unsafe_inv_def del: unsafe_step.simps)
       (simp add: unsafe_one_timer_def)
next
  case (Advance dt)
  assume "unsafe_inv s"
  then show ?thesis using Advance
    by (simp add: unsafe_inv_def unsafe_one_timer_advance)
next
  case Unmount
  assume "unsafe_inv s"
  then show ?thesis using Unmount
    by (simp add: unsafe_inv_def unsafe_one_timer_def)
qed

lemma unsafe_inv_run: "unsafe_inv s \<Longrightarrow> unsafe_inv (unsafe_run s tr)"
  unfolding unsafe_run_def by (induction tr arbitrary: s) (auto simp: unsafe_inv_step)

lemma unsafe_after_Call:
  assumes "unsafe_inv s"
  shows "pending (u_platform (unsafe_step s (Call a))) =
           [\<lparr>timer_id = next_id (u_platform s),
             deadline = now (u_platform s) + h_delay (u_handle s),
             cb_func = h_func (u_handle s), cb_args = a\<rparr>]"
    "invoked (u_platform (unsafe_step s (Call a))) = invoked (u_platform s)"
    "now (u_platform (unsafe_step s (Call a))) = now (u_platform s)"
    "u_handle (unsafe_step s (Call a)) = u_handle s"
  using assms by (simp_all add: unsafe_inv_def unsafe_step_Call_eq del: unsafe_step.simps)

lemma unsafe_armed_Call:
  assumes "unsafe_inv s" "u_handle s = \<lparr>h_func = f, h_delay = d\<rparr>"
  shows "unsafe_armed f d a (unsafe_step s (Call a))"
proof -
  have "unsafe_inv (unsafe_step s (Call a))" using assms(1) by (rule unsafe_inv_step)
  then show ?thesis
    using assms(2) unsafe_after_Call [OF assms(1), of a]
    by (simp add: unsafe_armed_def del: unsafe_step.simps)
qed

lemma unsafe_armed_gap:
  assumes "unsafe_armed f d a0 s" "g < d"
  shows "unsafe_inv (unsafe_step s (Advance g))"
    "u_handle (unsafe_step s (Advance g)) = \<lparr>h_func = f, h_delay = d\<rparr>"
    "invoked (u_platform (unsafe_step s (Advance g))) = invoked (u_platform s)"
  using assms by (auto simp: unsafe_armed_def unsafe_inv_step advance_fields simp del: unsafe_step.simps)
    (auto simp: advance_fields)

lemma unsafe_rapid_armed:
  assumes "unsafe_armed f d a0 s" "\<forall>(g, a) \<in> set cs. g < d"
  shows "unsafe_armed f d (snd (last ((g0, a0) # cs))) (unsafe_run s (rapid cs)) \<and>
         invoked (u_platform (unsafe_run s (rapid cs))) = invoked (u_platform s)"
  using assms
proof (induction cs arbitrary: s a0 g0)
  case Nil
  then show ?case by (simp add: unsafe_run_Nil)
next
  case (Cons c cs)
  obtain g a where c: "c = (g, a)" by (cases c)
  from Cons.prems c have g: "g < d" by simp
  let ?s1 = "unsafe_step s (Advance g)"
  let ?s2 = "unsafe_step ?s1 (Call a)"
  note gap = unsafe_armed_gap [OF Cons.prems(1) g]
  have "unsafe_armed f d a ?s2" using gap(1,2) by (rule unsafe_armed_Call)
  moreover from Cons.prems have "\<forall>(g, a) \<in> set cs. g < d" by simp
  ultimately have "unsafe_armed f d (snd (last ((g, a) # cs))) (unsafe_run ?s2 (rapid cs)) \<and>
         invoked (u_platform (unsafe_run ?s2 (rapid cs))) = invoked (u_platform ?s2)"
    by (rule Cons.IH)
  moreover have "invoked (u_platform ?s2) = invoked (u_platform s)"
    using gap(3) unsafe_after_Call(2) [OF gap(1), of a] by simp
  ultimately show ?case by (simp add: c unsafe_run_Cons del: unsafe_step.simps)
qed

lemma unsafe_armed_fire:
  assumes "unsafe_armed f d a s"
  shows "invoked (u_platform (unsafe_step s (Advance dt))) =
     invoked (u_platform s) @ (if d \<le> dt then [(now (u_platform s) + d, f, a)] else [])"
  using assms by (auto simp: unsafe_armed_def advance_fields fire_def)

lemma unsafe_now_step: "now (u_platform (unsafe_step s e)) = now (u_platform s) + elapsed [e]"
  by (cases e)
    (simp_all add: advance_fields unsafe_handle_def setTimeout_def clearTimeout_def Let_def
      case_prod_beta split: option.splits)

lemma unsafe_now_run: "now (u_platform (unsafe_run s tr)) = now (u_platform s) + elapsed tr"
proof (induction tr arbitrary: s)
  case Nil
  show ?case by (simp add: unsafe_run_Nil)
next
  case (Cons e es)
  have "elapsed (e # es) = elapsed [e] + elapsed es"
    using elapsed_append [of "[e]" es] by simp
  with Cons show ?case by (simp add: unsafe_run_Cons unsafe_now_step del: elapsed.simps)
qed

section \<open>Invariants of a useDebouncedState instance\<close>

lemma ds_render_gen:
  assumes "internalState (d_hooks s) = Some c"
    and "memo (debounce (d_hooks s)) = Some ((h_delay h, h_func h), h)"
    and "setter_memo (d_hooks s) = Some (h', h')"
  shows "ds_render st f d s =
     s\<lparr>d_hooks := (d_hooks s)
         \<lparr>internalState := Some (if effect_deps (d_hooks s) \<noteq> Some st then st else c),
          internalStateRef := Some (if effect_deps (d_hooks s) \<noteq> Some st then st else c),
          debounce := (debounce (d_hooks s))
            \<lparr>funcRef := Some f, memo := Some ((d, f), \<lparr>h_func = f, h_delay = d\<rparr>)\<rparr>,
          setter_memo := Some (\<lparr>h_func = f, h_delay = d\<rparr>, \<lparr>h_func = f, h_delay = d\<rparr>),
          effect_deps := Some st\<rparr>,
       d_state := st, d_setState := f, d_delay := d,
       d_value := (if effect_deps (d_hooks s) \<noteq> Some st then st else c),
       d_setValue := \<lparr>h_func = f, h_delay = d\<rparr>\<rparr>"
proof -
  note ud = useDebounce_eq [OF assms(2)]
  have m': "\<And>hs. memo hs = Some ((d, f), \<lparr>h_func = f, h_delay = d\<rparr>) \<Longrightarrow>
     useDebounce f d hs = (\<lparr>h_func = f, h_delay = d\<rparr>,
      hs\<lparr>funcRef := Some f, memo := Some ((d, f), \<lparr>h_func = f, h_delay = d\<rparr>)\<rparr>)"
    using useDebounce_eq [of _ "\<lparr>h_func = f, h_delay = d\<rparr>"] by simp
  show ?thesis
    using assms(1,3)
    by (auto simp: ds_render_def render_pass_def useDebouncedState_def state_effect_def
        ud m' useCallback_def Let_def)
qed

lemma ds_render_eq:
  assumes "ds_inv s"
  shows "ds_render st f d s =
     s\<lparr>d_hooks := (d_hooks s)
         \<lparr>internalState := Some (if st \<noteq> d_state s then st else d_value s),
          internalStateRef := Some (if st \<noteq> d_state s then st else d_value s),
          debounce := (debounce (d_hooks s))
            \<lparr>funcRef := Some f, memo := Some ((d, f), \<lparr>h_func = f, h_delay = d\<rparr>)\<rparr>,
          setter_memo := Some (\<lparr>h_func = f, h_delay = d\<rparr>, \<lparr>h_func = f, h_delay = d\<rparr>),
          effect_deps := Some st\<rparr>,
       d_state := st, d_setState := f, d_delay := d,
       d_value := (if st \<noteq> d_state s then st else d_value s),
       d_setValue := \<lparr>h_func = f, h_delay = d\<rparr>\<rparr>"
proof -
  have "internalState (d_hooks s) = Some (d_value s)"
    "memo (debounce (d_hooks s)) =
      Some ((h_delay (d_setValue s), h_func (d_setValue s)), d_setValue s)"
    "setter_memo (d_hooks s) = Some (d_setValue s, d_setValue s)"
    using assms by (simp_all add: ds_inv_def)
  then have "ds_render st f d s =
     s\<lparr>d_hooks := (d_hooks s)
         \<lparr>internalState := Some (if effect_deps (d_hooks s) \<noteq> Some st then st else d_value s),
          internalStateRef := Some (if effect_deps (d_hooks s) \<noteq> Some st then st else d_value s),
          debounce := (debounce (d_hooks s))
            \<lparr>funcRef := Some f, memo := Some ((d, f), \<lparr>h_func = f, h_delay = d\<rparr>)\<rparr>,
          setter_memo := Some (\<lparr>h_func = f, h_delay = d\<rparr>, \<lparr>h_func = f, h_delay = d\<rparr>),
          effect_deps := Some st\<rparr>,
       d_state := st, d_setState := f, d_delay := d,
       d_value := (if effect_deps (d_hooks s) \<noteq> Some st then st else d_value s),
       d_setValue := \<lparr>h_func = f, h_delay = d\<rparr>\<rparr>"
    by (rule ds_render_gen)
  moreover have "effect_deps (d_hooks s) = Some (d_state s)"
    using assms by (simp add: ds_inv_def)
  ultimately show ?thesis by (simp add: eq_commute [of st])
qed

lemma ds_mount_eq:
  "ds_mount x f d =
     \<lparr>d_hooks =
        \<lparr>internalState = Some x, internalStateRef = Some x,
         debounce = \<lparr>timeoutRef = None, argsRef = None, funcRef = Some f,
                      memo = Some ((d, f), \<lparr>h_func = f, h_delay = d\<rparr>)\<rparr>,
         setter_memo = Some (\<lparr>h_func = f, h_delay = d\<rparr>, \<lparr>h_func = f, h_delay = d\<rparr>),
         effect_deps = Some x\<rparr>,
      d_state = x, d_setState = f, d_delay = d, d_value = x,
      d_setValue = \<lparr>h_func = f, h_delay = d\<rparr>, d_mounted = True, d_platform = boot\<rparr>"
  by (simp add: ds_mount_def ds_render_def render_pass_def useDebouncedState_def state_effect_def
      useDebounce_def useCallback_def ds_hooks0_def safe_hooks0_def Let_def)

lemma ds_inv_mount: "ds_inv (ds_mount x f d)"
  by (simp add: ds_mount_eq ds_inv_def one_timer_def boot_def)

lemma ds_inv_render: "ds_inv s \<Longrightarrow> ds_inv (ds_render st f d s)"
  by (simp add: ds_render_eq) (simp add: ds_inv_def one_timer_def)

lemma handleSetState_eq:
  assumes "one_timer (debounce hs) p"
  shows "handleSetState h v (hs, p) =
     (hs\<lparr>internalState := Some v,
         debounce := (debounce hs)\<lparr>argsRef := Some v, timeoutRef := Some (next_id p)\<rparr>\<rparr>,
      p\<lparr>next_id := Suc (next_id p),
        pending := [\<lparr>timer_id = next_id p, deadline = now p + h_delay h,
                     cb_func = h_func h, cb_args = v\<rparr>]\<rparr>)"
  using assms
  by (auto simp: one_timer_def handleSetState_def safe_handle_def clearTimeout_def setTimeout_def
      Let_def split: option.splits)

lemma ds_step_SetValue_eq:
  assumes "ds_inv s"
  shows "ds_step s (SetValue v) =
     s\<lparr>d_hooks := (d_hooks s)
         \<lparr>internalState := Some v, internalStateRef := Some v,
          debounce := (debounce (d_hooks s))
            \<lparr>argsRef := Some v, timeoutRef := Some (next_id (d_platform s))\<rparr>\<rparr>,
       d_value := v,
       d_platform := (d_platform s)
         \<lparr>next_id := Suc (next_id (d_platform s)),
          pending := [\<lparr>timer_id = next_id (d_platform s),
                       deadline = now (d_platform s) + d_delay s,
                       cb_func = d_setState s, cb_args = v\<rparr>]\<rparr>\<rparr>"
proof -
  let ?s1 = "s\<lparr>d_hooks := (d_hooks s)
         \<lparr>internalState := Some v,
          debounce := (debounce (d_hooks s))
            \<lparr>argsRef := Some v, timeoutRef := Some (next_id (d_platform s))\<rparr>\<rparr>,
       d_platform := (d_platform s)
         \<lparr>next_id := Suc (next_id (d_platform s)),
          pending := [\<lparr>timer_id = next_id (d_platform s),
                       deadline = now (d_platform s) + d_delay s,
                       cb_func = d_setState s, cb_args = v\<rparr>]\<rparr>\<rparr>"
  have ot: "one_timer (debounce (d_hooks s)) (d_platform s)"
    using assms by (simp add: ds_inv_def)
  have hs: "handleSetState (d_setValue s) v (d_hooks s, d_platform s) = (d_hooks ?s1, d_platform ?s1)"
    using assms by (simp add: handleSetState_eq [OF ot] ds_inv_def)
  have st: "ds_step s (SetValue v) =
      (if v \<noteq> d_value s then ds_render (d_state s) (d_setState s) (d_delay s) ?s1 else ?s1)"
  proof -
    have "d_mounted s" using assms by (simp add: ds_inv_def)
    then show ?thesis by (simp only: ds_step.simps hs Let_def prod.case) simp
  qed
  show ?thesis
  proof (cases "v = d_value s")
    case True
    then show ?thesis using assms unfolding st by (simp add: ds_inv_def)
  next
    case False
    have "ds_render (d_state s) (d_setState s) (d_delay s) ?s1 =
     ?s1\<lparr>d_hooks := (d_hooks ?s1)
         \<lparr>internalState := Some (if effect_deps (d_hooks ?s1) \<noteq> Some (d_state s) then d_state s else v),
          internalStateRef := Some (if effect_deps (d_hooks ?s1) \<noteq> Some (d_state s) then d_state s else v),
          debounce := (debounce (d_hooks ?s1))
            \<lparr>funcRef := Some (d_setState s),
             memo := Some ((d_delay s, d_setState s), \<lparr>h_func = d_setState s, h_delay = d_delay s\<rparr>)\<rparr>,
          setter_memo := Some (\<lparr>h_func = d_setState s, h_delay = d_delay s\<rparr>,
                               \<lparr>h_func = d_setState s, h_delay = d_delay s\<rparr>),
          effect_deps := Some (d_state s)\<rparr>,
       d_state := d_state s, d_setState := d_setState s, d_delay := d_delay s,
       d_value := (if effect_deps (d_hooks ?s1) \<noteq> Some (d_state s) then d_state s else v),
       d_setValue := \<lparr>h_func = d_setState s, h_delay = d_delay s\<rparr>\<rparr>"
      using assms
      by (intro ds_render_gen [where h = "d_setValue s" and h' = "d_setValue s"])
         (simp_all add: ds_inv_def)
    then show ?thesis using assms False unfolding st
      by (simp add: ds_inv_def)
  qed
qed

lemma ds_inv_step:
  assumes "ds_inv s" "e \<noteq> DUnmount"
  shows "ds_inv (ds_step s e)"
proof (cases e)
  case (DRender st f d)
  with assms(1) show ?thesis by (simp add: ds_inv_render)
next
  case (SetValue v)
  with assms(1) show ?thesis
    by (simp add: ds_step_SetValue_eq del: ds_step.simps) (simp add: ds_inv_def one_timer_def)
next
  case (DAdvance dt)
  with assms(1) show ?thesis by (simp add: ds_inv_def one_timer_advance)
next
  case DUnmount
  with assms(2) show ?thesis by simp
qed

lemma ds_run_Nil: "ds_run s [] = s"
  by (simp add: ds_run_def)

lemma ds_run_Cons: "ds_run s (e # es) = ds_run (ds_step s e) es"
  by (simp add: ds_run_def)

lemma ds_inv_run: "ds_inv s \<Longrightarrow> DUnmount \<notin> set tr \<Longrightarrow> ds_inv (ds_run s tr)"
proof (induction tr arbitrary: s)
  case Nil
  then show ?case by (simp add: ds_run_Nil)
next
  case (Cons e es)
  from Cons.prems have "ds_inv (ds_step s e)" by (intro ds_inv_step) auto
  with Cons show ?case by (simp add: ds_run_Cons)
qed

section \<open>Executions of a useDebouncedState instance\<close>

lemma ds_render_platform: "ds_inv s \<Longrightarrow> d_platform (ds_render st f d s) = d_platform s"
  by (simp add: ds_render_eq)

lemma ds_quiet_run:
  assumes "ds_inv s" "ds_quiet mid"
    and "pending (d_platform s) = [t]" "now (d_platform s) + ds_elapsed mid < deadline t"
  shows "pending (d_platform (ds_run s mid)) = [t] \<and>
         invoked (d_platform (ds_run s mid)) = invoked (d_platform s)"
  using assms
proof (induction mid arbitrary: s)
  case Nil
  then show ?case by (simp add: ds_run_Nil)
next
  case (Cons e es)
  show ?case
  proof (cases e)
    case (DRender st f d)
    have "ds_inv (ds_step s e)" using Cons.prems(1) by (rule ds_inv_step) (simp add: DRender)
    moreover have p: "d_platform (ds_step s e) = d_platform s"
      using Cons.prems(1) by (simp add: DRender ds_render_platform)
    moreover have "ds_quiet es" "now (d_platform s) + ds_elapsed es < deadline t"
      using Cons.prems by (simp_all add: DRender)
    ultimately have "pending (d_platform (ds_run (ds_step s e) es)) = [t] \<and>
         invoked (d_platform (ds_run (ds_step s e) es)) = invoked (d_platform (ds_step s e))"
      using Cons.prems(3) by (intro Cons.IH) simp_all
    then show ?thesis by (simp add: ds_run_Cons p)
  next
    case (DAdvance dt)
    have "ds_inv (ds_step s e)" using Cons.prems(1) by (rule ds_inv_step) (simp add: DAdvance)
    moreover have "ds_quiet es" "pending (d_platform (ds_step s e)) = [t]"
      "now (d_platform (ds_step s e)) + ds_elapsed es < deadline t"
      using Cons.prems by (simp_all add: DAdvance advance_fields)
    ultimately have "pending (d_platform (ds_run (ds_step s e) es)) = [t] \<and>
         invoked (d_platform (ds_run (ds_step s e) es)) = invoked (d_platform (ds_step s e))"
      by (rule Cons.IH)
    then show ?thesis using Cons.prems by (simp add: ds_run_Cons DAdvance advance_fields)
  next
    case (SetValue v)
    with Cons.prems show ?thesis by simp
  next
    case DUnmount
    with Cons.prems show ?thesis by simp
  qed
qed

lemma ds_reach: "DUnmount \<notin> set tr \<Longrightarrow> ds_inv (ds_run (ds_mount x f d) tr)"
  by (simp add: ds_inv_run ds_inv_mount)

lemma setValue_immediate:
  assumes "DUnmount \<notin> set tr" "ds_quiet mid"
    and "ds_elapsed mid < d_delay (ds_run (ds_mount x f d) tr)"
  shows "d_value (ds_step (ds_run (ds_mount x f d) tr) (SetValue v)) = v \<and>
         invoked (d_platform (ds_run (ds_mount x f d) (tr @ SetValue v # mid))) =
           invoked (d_platform (ds_run (ds_mount x f d) tr))"
proof -
  let ?s = "ds_run (ds_mount x f d) tr"
  let ?s1 = "ds_step ?s (SetValue v)"
  let ?t = "\<lparr>timer_id = next_id (d_platform ?s), deadline = now (d_platform ?s) + d_delay ?s,
             cb_func = d_setState ?s, cb_args = v\<rparr>"
  have i: "ds_inv ?s" using assms(1) by (rule ds_reach)
  note eq = ds_step_SetValue_eq [OF i, of v]
  have i1: "ds_inv ?s1" using i by (rule ds_inv_step) simp
  have p1: "pending (d_platform ?s1) = [?t]" by (simp add: eq del: ds_step.simps)
  have n1: "now (d_platform ?s1) + ds_elapsed mid < deadline ?t"
    using assms(3) by (simp add: eq del: ds_step.simps)
  have "pending (d_platform (ds_run ?s1 mid)) = [?t] \<and>
         invoked (d_platform (ds_run ?s1 mid)) = invoked (d_platform ?s1)"
    using i1 assms(2) p1 n1 by (rule ds_quiet_run)
  moreover have "invoked (d_platform ?s1) = invoked (d_platform ?s)"
    by (simp add: eq del: ds_step.simps)
  moreover have "d_value ?s1 = v" by (simp add: eq del: ds_step.simps)
  moreover have "ds_run (ds_mount x f d) (tr @ SetValue v # mid) = ds_run ?s1 mid"
    by (simp add: ds_run_def)
  ultimately show ?thesis by simp
qed

lemma external_change:
  assumes "DUnmount \<notin> set tr"
  shows "d_value (ds_step (ds_run (ds_mount x f d) tr) (DRender v2 g d')) =
           (if v2 \<noteq> d_state (ds_run (ds_mount x f d) tr) then v2
            else d_value (ds_run (ds_mount x f d) tr)) \<and>
         d_platform (ds_step (ds_run (ds_mount x f d) tr) (DRender v2 g d')) =
           d_platform (ds_run (ds_mount x f d) tr)"
proof -
  have i: "ds_inv (ds_run (ds_mount x f d) tr)" using assms by (rule ds_reach)
  then have "d_mounted (ds_run (ds_mount x f d) tr)" by (simp add: ds_inv_def)
  then show ?thesis by (simp add: ds_render_eq [OF i])
qed

section \<open>Facts for the claims\<close>

lemma elapsed_rapid: "elapsed (rapid cs) = call_time cs"
  by (induction cs rule: rapid.induct) (simp_all add: call_time_def)

lemma last_args_Call: "last_args (tr @ Call a # tr') \<noteq> None"
proof (induction tr' rule: rev_induct)
  case Nil
  show ?case by (simp add: last_args_snoc)
next
  case (snoc e tr')
  have "last_args ((tr @ Call a # tr') @ [e]) \<noteq> None"
    using snoc by (simp only: last_args_snoc split: event.splits) simp
  then show ?case by simp
qed

lemma fire_then_flush:
  assumes "Unmount \<notin> set tr" "latest_delay d tr \<le> dt"
  shows "invoked (platform (run (mount f d) (tr @ [Call a, Advance dt, Unmount]))) =
         invoked (platform (run (mount f d) tr)) @
           [(elapsed tr + latest_delay d tr, latest_func f tr, a),
            (elapsed tr + dt, latest_func f tr, a)]"
proof -
  let ?s0 = "run (mount f d) tr"
  let ?s1 = "step ?s0 (Call a)"
  let ?s2 = "step ?s1 (Advance dt)"
  let ?t = "\<lparr>timer_id = next_id (platform ?s0), deadline = now (platform ?s0) + h_delay (handle ?s0),
             cb_func = h_func (handle ?s0), cb_args = a\<rparr>"
  note r = reach_facts [OF assms(1), of f d]
  have i1: "safe_inv ?s1" using r(1) by (rule safe_inv_step)
  have p1: "pending (platform ?s1) = [?t]" using r(1) by (rule after_Call)
  have k1: "now (platform ?s1) = elapsed tr" "invoked (platform ?s1) = invoked (platform ?s0)"
    "mounted ?s1" "handle ?s1 = handle ?s0" "argsRef (hooks ?s1) = Some a"
    using r(2,4) by (simp_all add: step_Call_keeps del: step.simps)
  have i2: "safe_inv ?s2" using i1 by (rule safe_inv_step)
  have k2: "invoked (platform ?s2) = invoked (platform ?s0) @ [fire ?t]"
    "now (platform ?s2) = elapsed tr + dt" "mounted ?s2" "handle ?s2 = handle ?s0"
    "argsRef (hooks ?s2) = Some a"
    using assms(2) p1 k1 by (simp_all add: advance_fields r(3,4) del: step.simps(1,2))
  have "invoked (platform (step ?s2 Unmount)) =
     invoked (platform ?s2) @ [(now (platform ?s2), h_func (handle ?s2), a)]"
    using i2 k2(3,5) by (rule step_Unmount_invoked)
  moreover have "run (mount f d) (tr @ [Call a, Advance dt, Unmount]) = step ?s2 Unmount"
    by (simp add: run_def)
  ultimately show ?thesis by (simp add: k2 fire_def r(3,4) del: step.simps)
qed

lemma pending_le_one: "length (pending (platform (run (mount f d) tr))) \<le> 1"
proof -
  have "safe_inv (run (mount f d) tr)" by (simp add: safe_inv_run safe_inv_mount)
  then show ?thesis by (auto simp: safe_inv_def one_timer_def)
qed

lemma unsafe_pending_le_one: "length (pending (u_platform (unsafe_run (unsafe_mount f d) tr))) \<le> 1"
proof -
  have "unsafe_inv (unsafe_run (unsafe_mount f d) tr)" by (simp add: unsafe_inv_run unsafe_inv_mount)
  then show ?thesis by (auto simp: unsafe_inv_def unsafe_one_timer_def)
qed

lemma unsafe_mounted_run: "Unmount \<notin> set tr \<Longrightarrow> u_mounted s \<Longrightarrow> u_mounted (unsafe_run s tr)"
proof (induction tr arbitrary: s)
  case Nil
  then show ?case by (simp add: unsafe_run_Nil)
next
  case (Cons e es)
  from Cons.prems have "u_mounted (unsafe_step s e)"
    by (cases e) (simp_all add: case_prod_beta)
  with Cons show ?case by (simp add: unsafe_run_Cons)
qed

lemma unsafe_run_snoc: "unsafe_run s (xs @ [e]) = unsafe_step (unsafe_run s xs) e"
  by (simp add: unsafe_run_def)

lemma last_args_burst: "snd (last ((g0, a0) # cs)) = last (a0 # map snd cs)"
  using last_map [of "(g0, a0) # cs" snd] by simp

lemma unsafe_handle_run:
  "Unmount \<notin> set tr \<Longrightarrow>
   u_handle (unsafe_run (unsafe_mount f d) tr) =
     \<lparr>h_func = latest_func f tr, h_delay = latest_delay d tr\<rparr>"
proof (induction tr rule: rev_induct)
  case Nil
  show ?case by (simp add: unsafe_run_Nil unsafe_mount_eq)
next
  case (snoc e tr)
  let ?s = "unsafe_run (unsafe_mount f d) tr"
  have inv: "unsafe_inv ?s" by (simp add: unsafe_inv_run unsafe_inv_mount)
  from snoc.prems have m: "u_mounted ?s" by (simp add: unsafe_mounted_run unsafe_mount_eq)
  from snoc show ?case
    by (cases e)
      (simp_all add: unsafe_run_snoc latest_func_snoc latest_delay_snoc
        unsafe_step_Render_eq [OF inv m] unsafe_after_Call [OF inv] del: unsafe_step.simps(1,2))
qed

lemma unsafe_mount_now: "now (u_platform (unsafe_mount f d)) = 0"
  by (simp add: unsafe_mount_eq boot_def)

lemma burst_safe:
  assumes "Unmount \<notin> set tr" "\<forall>(g, a) \<in> set cs. g < latest_delay d tr"
  shows "invoked (platform (run (mount f d) (tr @ Call a0 # rapid cs @ [Advance dt]))) =
     invoked (platform (run (mount f d) tr)) @
       (if latest_delay d tr \<le> dt
        then [(elapsed tr + call_time cs + latest_delay d tr, latest_func f tr,
               last (a0 # map snd cs))]
        else [])"
proof -
  let ?s0 = "run (mount f d) tr"
  let ?s1 = "step ?s0 (Call a0)"
  let ?sb = "run ?s1 (rapid cs)"
  note r = reach_facts [OF assms(1), of f d]
  have "armed (latest_func f tr) (latest_delay d tr) a0 ?s1"
    using r(1,3) by (rule armed_Call)
  then have "armed (latest_func f tr) (latest_delay d tr) (snd (last ((0, a0) # cs))) ?sb \<and>
         invoked (platform ?sb) = invoked (platform ?s1)"
    using assms(2) by (rule rapid_armed)
  then have a: "armed (latest_func f tr) (latest_delay d tr) (last (a0 # map snd cs)) ?sb"
    and i: "invoked (platform ?sb) = invoked (platform ?s0)"
    unfolding last_args_burst by (simp_all add: step_Call_keeps del: step.simps last.simps)
  have "now (platform ?sb) = elapsed tr + call_time cs"
    by (simp add: now_run step_Call_keeps mount_fields elapsed_rapid del: step.simps)
  moreover have "run (mount f d) (tr @ Call a0 # rapid cs @ [Advance dt]) = step ?sb (Advance dt)"
    by (simp add: run_def)
  ultimately show ?thesis using armed_fire [OF a, of dt] i by (simp del: step.simps last.simps)
qed

lemma burst_unsafe:
  assumes "Unmount \<notin> set tr" "\<forall>(g, a) \<in> set cs. g < latest_delay d tr"
  shows "invoked (u_platform (unsafe_run (unsafe_mount f d) (tr @ Call a0 # rapid cs @ [Advance dt]))) =
     invoked (u_platform (unsafe_run (unsafe_mount f d) tr)) @
       (if latest_delay d tr \<le> dt
        then [(elapsed tr + call_time cs + latest_delay d tr, latest_func f tr,
               last (a0 # map snd cs))]
        else [])"
proof -
  let ?s0 = "unsafe_run (unsafe_mount f d) tr"
  let ?s1 = "unsafe_step ?s0 (Call a0)"
  let ?sb = "unsafe_run ?s1 (rapid cs)"
  have inv: "unsafe_inv ?s0" by (simp add: unsafe_inv_run unsafe_inv_mount)
  have h: "u_handle ?s0 = \<lparr>h_func = latest_func f tr, h_delay = latest_delay d tr\<rparr>"
    using assms(1) by (rule unsafe_handle_run)
  have "unsafe_armed (latest_func f tr) (latest_delay d tr) a0 ?s1"
    using inv h by (rule unsafe_armed_Call)
  then have "unsafe_armed (latest_func f tr) (latest_delay d tr) (snd (last ((0, a0) # cs))) ?sb \<and>
         invoked (u_platform ?sb) = invoked (u_platform ?s1)"
    using assms(2) by (rule unsafe_rapid_armed)
  then have a: "unsafe_armed (latest_func f tr) (latest_delay d tr) (last (a0 # map snd cs)) ?sb"
    and i: "invoked (u_platform ?sb) = invoked (u_platform ?s0)"
    unfolding last_args_burst
    by (simp_all add: unsafe_after_Call [OF inv] del: unsafe_step.simps last.simps)
  have "now (u_platform ?sb) = elapsed tr + call_time cs"
    by (simp add: unsafe_now_run unsafe_now_step unsafe_mount_now elapsed_rapid
        del: unsafe_step.simps)
  moreover have "unsafe_run (unsafe_mount f d) (tr @ Call a0 # rapid cs @ [Advance dt]) =
      unsafe_step ?sb (Advance dt)"
    by (simp add: unsafe_run_def)
  ultimately show ?thesis
    using unsafe_armed_fire [OF a, of dt] i by (simp del: unsafe_step.simps last.simps)
qed

lemmas exec_simps =
  run_def unsafe_run_def ds_run_def mount_eq unsafe_mount_eq ds_mount_eq boot_def
  useDebounce_def useUnsafeDebounce_def useCallback_def safe_handle_def unsafe_handle_def
  setTimeout_def clearTimeout_def advance_def fire_def cleanup_def invoke_def Let_def
  useDebouncedState_def state_effect_def handleSetState_def render_pass_def ds_render_def
  call_time_def

section \<open>The claims\<close>

text \<open>
  C1 (the code does otherwise). The claim: with \<^verbatim>\<open>useUnsafeDebounce\<close>, when the
  instance is destroyed before the delay has passed since the last call, the wrapped
  function is never invoked for that call, the pending timer being discarded at
  teardown. The hook registers no cleanup, so destruction leaves the timer with the
  timer service: after a call and the destruction of the instance the timer is still
  pending, and once the delay has passed the wrapped function is invoked with the
  arguments of the call.
\<close>

theorem unsafe_timer_outlives_instance:
  "pending (u_platform (unsafe_run (unsafe_mount f d) [Call a, Unmount])) =
     [\<lparr>timer_id = 1, deadline = d, cb_func = f, cb_args = a\<rparr>] \<and>
   invoked (u_platform (unsafe_run (unsafe_mount f d) [Call a, Unmount, Advance d])) = [(d, f, a)] \<and>
   invoked (u_platform (unsafe_run (unsafe_mount (1::nat) 500)
     [Call ''x'', Advance 50, Unmount, Advance 450])) = [(500, 1, ''x'')]"
  by (simp add: exec_simps)

text \<open>
  C2 (the code does otherwise). The claim: with \<^verbatim>\<open>useDebounce\<close>, in an execution
  in which the handle was called and the instance is destroyed, the wrapped function is
  invoked exactly once, by the timer or by the cleanup and never by both. In the code
  the timer does not clear \<^verbatim>\<open>argsRef\<close> and the cleanup does not clear the timer:
  a call, the timer firing and then the destruction invoke the function twice with the
  same arguments, and so do a call, the destruction and then the timer firing.
\<close>

theorem safe_timer_and_cleanup_both_invoke:
  "invoked (platform (run (mount f d) [Call a, Advance d, Unmount])) = [(d, f, a), (d, f, a)] \<and>
   invoked (platform (run (mount f d) [Call a, Unmount, Advance d])) = [(0, f, a), (d, f, a)]"
  by (simp add: exec_simps)

text \<open>
  C3 (the code does otherwise). The claim: with \<^verbatim>\<open>useDebounce\<close>, when the
  instance is destroyed before the delay has passed since the last call, the wrapped
  function is invoked exactly once, during the destruction, with the arguments of that
  call. The cleanup does invoke it then, with those arguments, but it leaves the timer
  of the call with the timer service: when the delay has passed the timer fires and the
  function is invoked a second time with the same arguments. Here the call is made on a
  new instance, the instance is destroyed \<open>g\<close> milliseconds later and the delay is
  \<open>g + k + 1\<close>.
\<close>

theorem destroy_flush_is_followed_by_timer:
  "pending (platform (run (mount f (g + Suc k)) [Call a, Advance g, Unmount])) =
     [\<lparr>timer_id = 1, deadline = g + Suc k, cb_func = f, cb_args = a\<rparr>] \<and>
   invoked (platform (run (mount f (g + Suc k)) [Call a, Advance g, Unmount])) = [(g, f, a)] \<and>
   invoked (platform (run (mount f (g + Suc k)) [Call a, Advance g, Unmount, Advance (Suc k)])) =
     [(g, f, a), (g + Suc k, f, a)] \<and>
   invoked (platform (run (mount (1::nat) 500)
     [Call (42::nat), Advance 50, Unmount, Advance 450])) = [(50, 1, 42), (500, 1, 42)]"
  by (simp add: exec_simps)

text \<open>
  C4. For both hooks, at any point of the life of an instance: a burst of one or more
  calls of the handle, each less than the delay after the one before (the delay and
  the function being those of the last render), and no destruction. Once the delay has
  passed after the last call the wrapped function has been invoked exactly once since
  the burst began, with the arguments of the last call and at the time of the last call
  plus the delay; before that it has not been invoked since the burst began.
\<close>

theorem burst_invokes_once_with_last_args:
  assumes "Unmount \<notin> set tr" "\<forall>(g, a) \<in> set cs. g < latest_delay d tr"
    and "latest_delay d tr \<le> dt"
  shows "invoked (platform (run (mount f d) (tr @ Call a0 # rapid cs @ [Advance dt]))) =
           invoked (platform (run (mount f d) tr)) @
             [(elapsed tr + call_time cs + latest_delay d tr, latest_func f tr,
               last (a0 # map snd cs))] \<and>
         invoked (u_platform (unsafe_run (unsafe_mount f d) (tr @ Call a0 # rapid cs @ [Advance dt]))) =
           invoked (u_platform (unsafe_run (unsafe_mount f d) tr)) @
             [(elapsed tr + call_time cs + latest_delay d tr, latest_func f tr,
               last (a0 # map snd cs))] \<and>
         (g' < latest_delay d tr \<longrightarrow>
            invoked (platform (run (mount f d) (tr @ Call a0 # rapid cs @ [Advance g']))) =
              invoked (platform (run (mount f d) tr)) \<and>
            invoked (u_platform (unsafe_run (unsafe_mount f d) (tr @ Call a0 # rapid cs @ [Advance g']))) =
              invoked (u_platform (unsafe_run (unsafe_mount f d) tr)))"
  using burst_safe [OF assms(1,2), of f a0 dt] burst_unsafe [OF assms(1,2), of f a0 dt]
    burst_safe [OF assms(1,2), of f a0 g'] burst_unsafe [OF assms(1,2), of f a0 g'] assms(3)
  by simp

theorem burst_invokes_once_with_last_args_witness:
  "Unmount \<notin> set ([] :: (nat, string) event list) \<and> (100::nat) < 500 \<and>
   (500::nat) \<le> 500 \<and> (499::nat) < 500 \<and>
   invoked (platform (run (mount (1::nat) 500)
     [Call ''a'', Advance 100, Call ''b'', Advance 500])) = [(600, 1, ''b'')] \<and>
   invoked (u_platform (unsafe_run (unsafe_mount (1::nat) 500)
     [Call ''a'', Advance 100, Call ''b'', Advance 500])) = [(600, 1, ''b'')] \<and>
   invoked (platform (run (mount (1::nat) 500)
     [Call ''a'', Advance 100, Call ''b'', Advance 499])) = [] \<and>
   invoked (u_platform (unsafe_run (unsafe_mount (1::nat) 500)
     [Call ''a'', Advance 100, Call ''b'', Advance 499])) = []"
  using burst_invokes_once_with_last_args
    [where tr = "[]" and cs = "[(100, ''b'')]" and d = 500 and dt = 500
       and f = "1::nat" and g' = 499 and ?a0.0 = "''a''"]
  by (simp add: call_time_def run_Nil unsafe_run_Nil mount_fields unsafe_mount_eq boot_def)

text \<open>
  C5 (amended). The claim: with \<^verbatim>\<open>useDebounce\<close>, whenever the wrapped function is
  invoked, by the timer or by the cleanup, the function used is the one of the last
  render at that moment and the arguments are those of the last call. This holds for
  the cleanup, which reads \<^verbatim>\<open>funcRef\<close>. It does not hold for the timer: its
  closure holds the \<^verbatim>\<open>func\<close> of the render that made the handle that was called.
  After a call and a render with another function the timer invokes the function of
  the first render.
\<close>

theorem timer_uses_func_of_call_counterexample:
  "funcRef (hooks (run (mount (1::nat) 500) [Call (42::nat), Render 2 500])) = Some 2 \<and>
   invoked (platform (run (mount (1::nat) 500) [Call (42::nat), Render 2 500, Advance 500])) =
     [(500, 1, 42)]"
  by (simp add: exec_simps)

text \<open>
  C5 as amended. When the timer fires (the delay has passed since the last call, with
  renders only in between), the wrapped function invoked is the one of the last render
  before that call, whatever was rendered since, with the arguments of that call. When
  the instance is destroyed after a call, the cleanup invokes the function of the last
  render before the destruction, with the arguments of the last call.
\<close>

theorem timer_uses_func_of_call_cleanup_uses_latest:
  "(Unmount \<notin> set tr \<and> quiet mid \<and> elapsed mid < latest_delay d tr \<and>
    latest_delay d tr \<le> elapsed mid + dt \<longrightarrow>
      invoked (platform (run (mount f d) (tr @ Call a # mid @ [Advance dt]))) =
        invoked (platform (run (mount f d) tr)) @
          [(elapsed tr + latest_delay d tr, latest_func f tr, a)]) \<and>
   (Unmount \<notin> set tr \<and> last_args tr = Some b \<longrightarrow>
      invoked (platform (run (mount f d) (tr @ [Unmount]))) =
        invoked (platform (run (mount f d) tr)) @ [(elapsed tr, latest_func f tr, b)])"
  using fire_after_quiet [of tr mid d dt f a] flush_general [of tr f d] by simp

theorem timer_uses_func_of_call_cleanup_uses_latest_witness:
  "Unmount \<notin> set ([] :: (nat, nat) event list) \<and>
   quiet [Render (2::nat) 500 :: (nat, nat) event] \<and>
   elapsed [Render (2::nat) 500 :: (nat, nat) event] < latest_delay 500 ([] :: (nat, nat) event list) \<and>
   latest_delay 500 ([] :: (nat, nat) event list) \<le> elapsed [Render (2::nat) 500 :: (nat, nat) event] + 500 \<and>
   invoked (platform (run (mount (1::nat) 500) [Call (42::nat), Render 2 500, Advance 500])) =
     [(500, 1, 42)] \<and>
   Unmount \<notin> set [Call (42::nat), Render (2::nat) 500] \<and>
   last_args [Call (42::nat), Render (2::nat) 500] = Some 42 \<and>
   invoked (platform (run (mount (1::nat) 500) [Call (42::nat), Render 2 500, Unmount])) =
     [(0, 2, 42)]"
  using timer_uses_func_of_call_cleanup_uses_latest
    [where tr = "[]" and mid = "[Render 2 500]" and d = 500 and dt = 500 and f = "1::nat"
       and a = "42::nat" and b = "42::nat"]
    timer_uses_func_of_call_cleanup_uses_latest
    [where tr = "[Call 42, Render 2 500]" and mid = "[]" and d = 500 and dt = 0 and f = "1::nat"
       and a = "42::nat" and b = "42::nat"]
  by (simp add: exec_simps)

text \<open>
  C6. With \<^verbatim>\<open>useDebouncedState\<close>, on a mounted instance: after \<^verbatim>\<open>setValue(v)\<close>
  the current value the component gets is \<open>v\<close>; and while less than the delay has
  passed since that call, with renders in between but no other call and no destruction,
  the external setter has not been invoked.
\<close>

theorem setValue_is_immediate_and_setter_waits:
  assumes "DUnmount \<notin> set tr" "ds_quiet mid"
    and "ds_elapsed mid < d_delay (ds_run (ds_mount x f d) tr)"
  shows "d_value (ds_step (ds_run (ds_mount x f d) tr) (SetValue v)) = v \<and>
         invoked (d_platform (ds_run (ds_mount x f d) (tr @ SetValue v # mid))) =
           invoked (d_platform (ds_run (ds_mount x f d) tr))"
  using assms by (rule setValue_immediate)

theorem setValue_is_immediate_and_setter_waits_witness:
  "DUnmount \<notin> set ([] :: (string, nat) ds_event list) \<and>
   ds_quiet [DAdvance 499 :: (string, nat) ds_event] \<and>
   ds_elapsed [DAdvance 499 :: (string, nat) ds_event] < 500 \<and>
   d_value (ds_run (ds_mount ''x'' (1::nat) 500) [SetValue ''y'']) = ''y'' \<and>
   invoked (d_platform (ds_run (ds_mount ''x'' (1::nat) 500) [SetValue ''y'', DAdvance 499])) = []"
  using setValue_is_immediate_and_setter_waits
    [where tr = "[]" and mid = "[DAdvance 499]" and x = "''x''" and f = "1::nat" and d = 500
       and v = "''y''"]
  by (simp add: ds_run_def ds_mount_eq boot_def del: ds_step.simps)

text \<open>
  C7. With \<^verbatim>\<open>useDebouncedState\<close>, on a mounted instance: the effect looks at the
  external value after the first render and after every render whose \<^verbatim>\<open>state\<close>
  is not the one of the render before, and stores it in the state cell if it is not the
  current value. So a render with an external value \<open>w\<close> other than the one of the
  render before makes the current value \<open>w\<close>, also while a call of the setter is
  pending; a render with the same external value keeps the current value. The render
  leaves the timer service as it is.
\<close>

theorem external_change_overwrites_current_value:
  assumes "DUnmount \<notin> set tr"
  shows "d_value (ds_step (ds_run (ds_mount x f d) tr) (DRender w g d')) =
           (if w \<noteq> d_state (ds_run (ds_mount x f d) tr) then w
            else d_value (ds_run (ds_mount x f d) tr)) \<and>
         d_platform (ds_step (ds_run (ds_mount x f d) tr) (DRender w g d')) =
           d_platform (ds_run (ds_mount x f d) tr)"
  using assms by (rule external_change)

theorem external_change_overwrites_current_value_witness:
  "DUnmount \<notin> set [SetValue ''y'', DAdvance 100 :: (string, nat) ds_event] \<and>
   d_value (ds_run (ds_mount ''x'' (1::nat) 500) [SetValue ''y'', DAdvance 100]) = ''y'' \<and>
   d_value (ds_run (ds_mount ''x'' (1::nat) 500) [SetValue ''y'', DAdvance 100, DRender ''z'' 1 500])
     = ''z'' \<and>
   pending (d_platform (ds_run (ds_mount ''x'' (1::nat) 500)
     [SetValue ''y'', DAdvance 100, DRender ''z'' 1 500])) =
     [\<lparr>timer_id = 1, deadline = 500, cb_func = 1, cb_args = ''y''\<rparr>]"
  using external_change_overwrites_current_value
    [where tr = "[SetValue ''y'', DAdvance 100]" and x = "''x''" and f = "1::nat" and d = 500
       and w = "''z''" and g = "1::nat" and d' = 500]
  by (simp add: exec_simps)

text \<open>
  C8. With \<^verbatim>\<open>useDebounce\<close>: when the handle is never called during the life of an
  instance, whatever is rendered and however much time passes, the destruction invokes
  nothing: the wrapped function has not been invoked at all when it is over.
\<close>

theorem destroy_without_call_invokes_nothing:
  assumes "\<forall>a. Call a \<notin> set tr"
  shows "invoked (platform (run (mount f d) (tr @ [Unmount]))) = []"
proof -
  from assms have "\<forall>a. Call a \<notin> set (tr @ [Unmount])" by simp
  then have "pending (platform (run (mount f d) (tr @ [Unmount]))) = [] \<and>
      argsRef (hooks (run (mount f d) (tr @ [Unmount]))) = None \<and>
      invoked (platform (run (mount f d) (tr @ [Unmount]))) = invoked (platform (mount f d))"
    by (rule silent_run) (simp_all add: mount_fields)
  then show ?thesis by (simp add: mount_fields)
qed

theorem destroy_without_call_invokes_nothing_witness:
  "(\<forall>a. Call a \<notin> set [Render (2::nat) 100, Advance 1000 :: (nat, nat) event]) \<and>
   invoked (platform (run (mount (1::nat) 500)
     [Render 2 100, Advance 1000, Unmount :: (nat, nat) event])) = []"
  using destroy_without_call_invokes_nothing
    [where tr = "[Render 2 100, Advance 1000]" and f = "1::nat" and d = 500]
  by simp

text \<open>
  C9. For both hooks, in every state an instance can reach (renders, calls of the
  handle, passing time and destruction in any order), the timer service holds at most
  one timer of the instance. In particular, right after a call of the handle exactly
  the timer of that call is pending: the one before, if any, has been cleared.
\<close>

theorem at_most_one_pending_timer:
  "length (pending (platform (run (mount f d) tr))) \<le> 1 \<and>
   length (pending (u_platform (unsafe_run (unsafe_mount f d) tr))) \<le> 1 \<and>
   pending (platform (step (run (mount f d) tr) (Call a))) =
     [\<lparr>timer_id = next_id (platform (run (mount f d) tr)),
       deadline = now (platform (run (mount f d) tr)) + h_delay (handle (run (mount f d) tr)),
       cb_func = h_func (handle (run (mount f d) tr)), cb_args = a\<rparr>] \<and>
   pending (u_platform (unsafe_step (unsafe_run (unsafe_mount f d) tr) (Call a))) =
     [\<lparr>timer_id = next_id (u_platform (unsafe_run (unsafe_mount f d) tr)),
       deadline = now (u_platform (unsafe_run (unsafe_mount f d) tr)) +
         h_delay (u_handle (unsafe_run (unsafe_mount f d) tr)),
       cb_func = h_func (u_handle (unsafe_run (unsafe_mount f d) tr)), cb_args = a\<rparr>]"
proof -
  have "safe_inv (run (mount f d) tr)" by (simp add: safe_inv_run safe_inv_mount)
  moreover have "unsafe_inv (unsafe_run (unsafe_mount f d) tr)"
    by (simp add: unsafe_inv_run unsafe_inv_mount)
  ultimately show ?thesis
    using pending_le_one [of f d tr] unsafe_pending_le_one [of f d tr]
    by (simp add: after_Call unsafe_after_Call del: step.simps unsafe_step.simps)
qed

theorem at_most_one_pending_timer_witness:
  "pending (platform (run (mount (1::nat) 500) [Call ''a'', Advance 100, Call ''b''])) =
     [\<lparr>timer_id = 2, deadline = 600, cb_func = 1, cb_args = ''b''\<rparr>] \<and>
   pending (u_platform (unsafe_run (unsafe_mount (1::nat) 500) [Call ''a'', Advance 100, Call ''b''])) =
     [\<lparr>timer_id = 2, deadline = 600, cb_func = 1, cb_args = ''b''\<rparr>]"
  using at_most_one_pending_timer
    [where tr = "[Call ''a'', Advance 100]" and f = "1::nat" and d = 500 and a = "''b''"]
  by (simp add: exec_simps)

text \<open>
  C10. With \<^verbatim>\<open>useDebounce\<close>: a timer that fires leaves \<^verbatim>\<open>argsRef\<close> as it is,
  and once the handle has been called the cell is set in every later state of the
  instance. So when the timer of a call has fired and the instance is destroyed
  afterwards, the cleanup invokes the wrapped function once more, with the arguments
  the timer has already delivered.
\<close>

theorem timer_fire_keeps_captured_args:
  assumes "Unmount \<notin> set tr" "latest_delay d tr \<le> dt"
  shows "argsRef (hooks (step s (Advance n))) = argsRef (hooks s) \<and>
         argsRef (hooks (run (mount f d) (tr @ Call a # tr'))) \<noteq> None \<and>
         invoked (platform (run (mount f d) (tr @ [Call a, Advance dt, Unmount]))) =
           invoked (platform (run (mount f d) tr)) @
             [(elapsed tr + latest_delay d tr, latest_func f tr, a),
              (elapsed tr + dt, latest_func f tr, a)]"
  using fire_then_flush [OF assms, of f a] last_args_Call [of tr a tr']
  by (simp add: argsRef_run)

theorem timer_fire_keeps_captured_args_witness:
  "Unmount \<notin> set [Render (2::nat) 300 :: (nat, nat) event] \<and>
   latest_delay 500 [Render (2::nat) 300 :: (nat, nat) event] \<le> 1000 \<and>
   argsRef (hooks (run (mount (1::nat) 500) [Render 2 300, Call (42::nat), Advance 1000])) = Some 42 \<and>
   invoked (platform (run (mount (1::nat) 500)
     [Render 2 300, Call (42::nat), Advance 1000, Unmount])) = [(300, 2, 42), (1000, 2, 42)]"
  using timer_fire_keeps_captured_args
    [where tr = "[Render 2 300]" and d = 500 and dt = 1000 and f = "1::nat" and a = "42::nat"
       and tr' = "[Advance 1000]" and s = "mount 1 500" and n = 5]
  by (simp add: exec_simps)

end
